theory Spec2Isabelle
  imports Complex_Main
begin

section \<open>Python values and exceptions\<close>

text \<open>
  The exceptions that the modelled functions of \<open>core/grid_utils.py\<close> and
  \<open>core/video.py\<close> can raise. A function that can raise returns
  \<open>py_error + 'a\<close>, with \<open>Inl\<close> for the exception.
\<close>

datatype py_error =
    ZeroDivisionError
  | ValueError
  | FileNotFoundError
  | SystemError
  | OSError
  | OverflowError

section \<open>Geometry (core/grid\_utils.py)\<close>

text \<open>
  \<^verbatim>\<open>def calculate_sprite_size(resolution, cols, rows): return resolution // max(cols, rows)\<close>

  Python's \<open>//\<close> on integers is floor division, as \<open>div\<close> on \<open>int\<close> is;
  a zero divisor raises \<open>ZeroDivisionError\<close>.
\<close>

definition calculate_sprite_size :: "int \<Rightarrow> int \<Rightarrow> int \<Rightarrow> py_error + int" where
  "calculate_sprite_size resolution cols rows =
     (if max cols rows = 0 then Inl ZeroDivisionError
      else Inr (resolution div max cols rows))"

text \<open>
  \<^verbatim>\<open>def calculate_grid_resolution(sprite_size, cols, rows): return (sprite_size * cols, sprite_size * rows)\<close>
\<close>

definition calculate_grid_resolution :: "int \<Rightarrow> int \<Rightarrow> int \<Rightarrow> int \<times> int" where
  "calculate_grid_resolution sprite_size cols rows = (sprite_size * cols, sprite_size * rows)"

section \<open>Images: the part of Pillow that grid\_utils.py calls\<close>

text \<open>
  An image is its mode, its size and its pixel data. A pixel is the list of its band
  values; coordinates are Python integers. Only the pixels inside
  \<open>0 \<le> x < width\<close>, \<open>0 \<le> y < height\<close> are data of the image.
\<close>

datatype img_mode = RGB | RGBA | OtherMode string nat

fun bands :: "img_mode \<Rightarrow> nat" where
  "bands RGB = 3"
| "bands RGBA = 4"
| "bands (OtherMode name n) = n"

type_synonym pixel = "nat list"

record image =
  mode :: img_mode
  width :: nat
  height :: nat
  pixel_at :: "int \<Rightarrow> int \<Rightarrow> pixel"

definition in_image :: "image \<Rightarrow> int \<Rightarrow> int \<Rightarrow> bool" where
  "in_image im x y \<longleftrightarrow> 0 \<le> x \<and> x < int (width im) \<and> 0 \<le> y \<and> y < int (height im)"

text \<open>
  What Pillow computes inside its C library and its codecs is a parameter of the model:
  the LANCZOS resampling filter (\<open>resample K im w h\<close> is the pixel data of
  \<open>im\<close> resampled to \<open>w \<times> h\<close>), the conversion of pixel data to another mode,
  and the modes that the PNG encoder writes.
\<close>

record pil =
  resample :: "image \<Rightarrow> nat \<Rightarrow> nat \<Rightarrow> int \<Rightarrow> int \<Rightarrow> pixel"
  convert_pixels :: "image \<Rightarrow> img_mode \<Rightarrow> int \<Rightarrow> int \<Rightarrow> pixel"
  png_modes :: "img_mode \<Rightarrow> bool"

text \<open>
  The file system, as far as the code reads and writes image files: a path is the list
  of its components (\<open>output_dir / name\<close> appends one), and a path holds an image
  or nothing that can be opened as one. Directories are not modelled:
  \<open>output_dir.mkdir(parents=True, exist_ok=True)\<close> is taken to succeed.
\<close>

type_synonym path = "string list"
type_synonym fs = "path \<Rightarrow> image option"

text \<open>\<^verbatim>\<open>Image.new(mode, size, color)\<close>: a negative size raises \<open>ValueError\<close>.\<close>

definition image_new :: "img_mode \<Rightarrow> int \<times> int \<Rightarrow> pixel \<Rightarrow> py_error + image" where
  "image_new m size' color =
     (case size' of (w, h) \<Rightarrow>
        if w < 0 \<or> h < 0 then Inl ValueError
        else Inr \<lparr>mode = m, width = nat w, height = nat h, pixel_at = (\<lambda>x y. color)\<rparr>)"

text \<open>\<^verbatim>\<open>Image.open(path)\<close>\<close>

definition image_open :: "fs \<Rightarrow> path \<Rightarrow> py_error + image" where
  "image_open files p = (case files p of None \<Rightarrow> Inl FileNotFoundError | Some im \<Rightarrow> Inr im)"

text \<open>
  \<^verbatim>\<open>image.save(path)\<close>, for a path that ends in \<open>.png\<close>. The file is
  opened for writing first. The encoder raises \<open>OSError\<close> for a mode it cannot write,
  and \<open>SystemError\<close> (tile cannot extend outside image) for an image of width or
  height zero; then no image is left at the path. Otherwise the file holds the image.
\<close>

definition image_save :: "pil \<Rightarrow> fs \<Rightarrow> image \<Rightarrow> path \<Rightarrow> (py_error + unit) \<times> fs" where
  "image_save K files im p =
     (if \<not> png_modes K (mode im) then (Inl OSError, files(p := None))
      else if width im = 0 \<or> height im = 0 then (Inl SystemError, files(p := None))
      else (Inr (), files(p \<mapsto> im)))"

text \<open>
  \<^verbatim>\<open>image.crop((left, upper, right, lower))\<close>: the result has size
  \<open>(right - left, lower - upper)\<close>; pixels of the box that lie outside the image are
  zero. A box with \<open>right < left\<close> or \<open>lower < upper\<close> raises \<open>ValueError\<close>.
\<close>

definition crop :: "image \<Rightarrow> int \<times> int \<times> int \<times> int \<Rightarrow> py_error + image" where
  "crop im box =
     (case box of (left, upper, right, lower) \<Rightarrow>
        if right < left \<or> lower < upper then Inl ValueError
        else Inr \<lparr>mode = mode im, width = nat (right - left), height = nat (lower - upper),
                  pixel_at = (\<lambda>x y. if in_image im (left + x) (upper + y)
                                      then pixel_at im (left + x) (upper + y)
                                      else replicate (bands (mode im)) 0)\<rparr>)"

text \<open>\<^verbatim>\<open>image.convert(mode)\<close>: a copy when the image has the mode already.\<close>

definition convert :: "pil \<Rightarrow> image \<Rightarrow> img_mode \<Rightarrow> image" where
  "convert K im m =
     (if mode im = m then im else im\<lparr>mode := m, pixel_at := convert_pixels K im m\<rparr>)"

text \<open>
  \<^verbatim>\<open>image.resize((w, h), Image.Resampling.LANCZOS)\<close>: a copy when the image has
  the size already; otherwise a width or height below 1 raises \<open>ValueError\<close>.
\<close>

definition resize :: "pil \<Rightarrow> image \<Rightarrow> int \<times> int \<Rightarrow> py_error + image" where
  "resize K im size' =
     (case size' of (w, h) \<Rightarrow>
        if (int (width im), int (height im)) = (w, h) then Inr im
        else if w < 1 \<or> h < 1 then Inl ValueError
        else Inr \<lparr>mode = mode im, width = nat w, height = nat h,
                  pixel_at = resample K im (nat w) (nat h)\<rparr>)"

text \<open>
  \<^verbatim>\<open>grid.paste(frame, (x, y))\<close>: the frame, converted to the mode of the
  destination when it has another one, overwrites the region with its upper left
  corner at \<open>(x, y)\<close>; the destination keeps its mode and size (what falls outside is
  clipped). Whatever Pillow does to the bands of a frame of another mode, also where it
  copies them without \<open>convert\<close>, is the parameter \<open>convert_pixels\<close>.
\<close>

definition paste_source :: "pil \<Rightarrow> image \<Rightarrow> image \<Rightarrow> image" where
  "paste_source K dst src = convert K src (mode dst)"

definition paste :: "pil \<Rightarrow> image \<Rightarrow> image \<Rightarrow> int \<times> int \<Rightarrow> image" where
  "paste K dst src pos =
     (case pos of (x0, y0) \<Rightarrow>
        let im = paste_source K dst src in
        dst\<lparr>pixel_at :=
              (\<lambda>x y. if x0 \<le> x \<and> x < x0 + int (width im) \<and> y0 \<le> y \<and> y < y0 + int (height im)
                     then pixel_at im (x - x0) (y - y0)
                     else pixel_at dst x y)\<rparr>)"

section \<open>Slicing and composing grids (core/grid\_utils.py)\<close>

text \<open>
  The format specification \<^verbatim>\<open>{row:02d}\<close> of a non-negative integer: its decimal
  digits, padded with zeros on the left to two characters.
\<close>

fun digits10 :: "nat \<Rightarrow> string" where
  "digits10 n =
     (if n < 10 then [char_of (48 + n)]
      else digits10 (n div 10) @ [char_of (48 + n mod 10)])"

definition format_02d :: "nat \<Rightarrow> string" where
  "format_02d n = (let s = digits10 n in replicate (2 - length s) (CHR ''0'') @ s)"

definition frame_name :: "nat \<Rightarrow> nat \<Rightarrow> string" where
  "frame_name row col = ''frame_'' @ format_02d row @ ''_'' @ format_02d col @ ''.png''"

text \<open>
  \<^verbatim>\<open>
  def slice_grid(image_path, cols, rows, output_dir):
      img = Image.open(image_path)
      width, height = img.size
      cell_width = width // cols
      cell_height = height // rows
      output_dir.mkdir(parents=True, exist_ok=True)
      frames = []
      for row in range(rows):
          for col in range(cols):
              left = col * cell_width
              upper = row * cell_height
              right = left + cell_width
              lower = upper + cell_height
              cell = img.crop((left, upper, right, lower))
              frame_path = output_dir / f"frame_{row:02d}_{col:02d}.png"
              cell.save(frame_path)
              frames.append(frame_path)
      return frames
  \<close>
  The state of the loops is the list \<open>frames\<close> and the file system. The function
  returns the file system as it leaves it, also when it raises.
\<close>

fun slice_cols ::
  "pil \<Rightarrow> image \<Rightarrow> int \<Rightarrow> int \<Rightarrow> path \<Rightarrow> nat \<Rightarrow> nat list \<Rightarrow> path list \<times> fs
     \<Rightarrow> (py_error + path list) \<times> fs" where
  "slice_cols K img cell_width cell_height output_dir row [] (frames, files) =
     (Inr frames, files)"
| "slice_cols K img cell_width cell_height output_dir row (col # cs) (frames, files) =
     (let left = int col * cell_width;
          upper = int row * cell_height;
          right = left + cell_width;
          lower = upper + cell_height
      in case crop img (left, upper, right, lower) of
           Inl e \<Rightarrow> (Inl e, files)
         | Inr cell \<Rightarrow>
             let frame_path = output_dir @ [frame_name row col] in
             (case image_save K files cell frame_path of
                (Inl e, files') \<Rightarrow> (Inl e, files')
              | (Inr u, files') \<Rightarrow>
                  slice_cols K img cell_width cell_height output_dir row cs
                    (frames @ [frame_path], files')))"

fun slice_rows ::
  "pil \<Rightarrow> image \<Rightarrow> int \<Rightarrow> int \<Rightarrow> path \<Rightarrow> int \<Rightarrow> nat list \<Rightarrow> path list \<times> fs
     \<Rightarrow> (py_error + path list) \<times> fs" where
  "slice_rows K img cell_width cell_height output_dir cols [] (frames, files) =
     (Inr frames, files)"
| "slice_rows K img cell_width cell_height output_dir cols (row # rs) (frames, files) =
     (case slice_cols K img cell_width cell_height output_dir row [0..<nat cols] (frames, files) of
        (Inl e, files') \<Rightarrow> (Inl e, files')
      | (Inr frames', files') \<Rightarrow>
          slice_rows K img cell_width cell_height output_dir cols rs (frames', files'))"

definition slice_grid ::
  "pil \<Rightarrow> fs \<Rightarrow> path \<Rightarrow> int \<Rightarrow> int \<Rightarrow> path \<Rightarrow> (py_error + path list) \<times> fs" where
  "slice_grid K files image_path cols rows output_dir =
     (case image_open files image_path of
        Inl e \<Rightarrow> (Inl e, files)
      | Inr img \<Rightarrow>
          if cols = 0 then (Inl ZeroDivisionError, files)
          else let cell_width = int (width img) div cols in
          if rows = 0 then (Inl ZeroDivisionError, files)
          else let cell_height = int (height img) div rows in
          slice_rows K img cell_width cell_height output_dir cols [0..<nat rows] ([], files))"

text \<open>
  \<^verbatim>\<open>
  def compose_grid(frames, cols, rows, sprite_size):
      grid_width = cols * sprite_size
      grid_height = rows * sprite_size
      grid = Image.new("RGBA", (grid_width, grid_height), (0, 0, 0, 0))
      for idx, frame_path in enumerate(frames):
          if idx >= cols * rows:
              break
          row = idx // cols
          col = idx % cols
          frame = Image.open(frame_path)
          frame = frame.resize((sprite_size, sprite_size), Image.Resampling.LANCZOS)
          x = col * sprite_size
          y = row * sprite_size
          grid.paste(frame, (x, y))
      return grid
  \<close>
  The loop is \<open>compose_loop\<close>: its state is the index and the grid. The division by
  \<open>cols\<close> is reached only with \<open>idx < cols * rows\<close>, so never with \<open>cols = 0\<close>.
\<close>

fun compose_loop ::
  "pil \<Rightarrow> fs \<Rightarrow> int \<Rightarrow> int \<Rightarrow> int \<Rightarrow> int \<Rightarrow> path list \<Rightarrow> image \<Rightarrow> py_error + image" where
  "compose_loop K files cols rows sprite_size idx [] grid = Inr grid"
| "compose_loop K files cols rows sprite_size idx (frame_path # rest) grid =
     (if idx \<ge> cols * rows then Inr grid
      else
        let row = idx div cols;
            col = idx mod cols
        in case image_open files frame_path of
             Inl e \<Rightarrow> Inl e
           | Inr frame \<Rightarrow>
               (case resize K frame (sprite_size, sprite_size) of
                  Inl e \<Rightarrow> Inl e
                | Inr frame' \<Rightarrow>
                    let x = col * sprite_size;
                        y = row * sprite_size
                    in compose_loop K files cols rows sprite_size (idx + 1) rest
                         (paste K grid frame' (x, y))))"

definition compose_grid ::
  "pil \<Rightarrow> fs \<Rightarrow> path list \<Rightarrow> int \<Rightarrow> int \<Rightarrow> int \<Rightarrow> py_error + image" where
  "compose_grid K files frames cols rows sprite_size =
     (let grid_width = cols * sprite_size;
          grid_height = rows * sprite_size
      in case image_new RGBA (grid_width, grid_height) [0, 0, 0, 0] of
           Inl e \<Rightarrow> Inl e
         | Inr grid \<Rightarrow> compose_loop K files cols rows sprite_size 0 frames grid)"

text \<open>
  \<^verbatim>\<open>
  def center_crop_square(image):
      width, height = image.size
      size = min(width, height)
      left = (width - size) // 2
      top = (height - size) // 2
      right = left + size
      bottom = top + size
      return image.crop((left, top, right, bottom))
  \<close>
\<close>

definition center_crop_square :: "image \<Rightarrow> py_error + image" where
  "center_crop_square img =
     (let w = int (width img);
          h = int (height img);
          size' = min w h;
          left = (w - size') div 2;
          top = (h - size') div 2;
          right = left + size';
          bottom = top + size'
      in crop img (left, top, right, bottom))"

text \<open>
  \<^verbatim>\<open>
  def create_reference_grid(frames, cols, rows, resolution=2048):
      if not frames:
          raise ValueError("No frames provided")
      cell_size = resolution // max(cols, rows)
      grid_size = cell_size * max(cols, rows)
      grid = Image.new("RGB", (grid_size, grid_size), (255, 255, 255))
      for idx, frame_path in enumerate(frames):
          if idx >= cols * rows:
              break
          row = idx // cols
          col = idx % cols
          frame = Image.open(frame_path).convert("RGB")
          frame = center_crop_square(frame)
          frame = frame.resize((cell_size, cell_size), Image.Resampling.LANCZOS)
          x = col * cell_size
          y = row * cell_size
          grid.paste(frame, (x, y))
      return grid
  \<close>
\<close>

fun reference_loop ::
  "pil \<Rightarrow> fs \<Rightarrow> int \<Rightarrow> int \<Rightarrow> int \<Rightarrow> int \<Rightarrow> path list \<Rightarrow> image \<Rightarrow> py_error + image" where
  "reference_loop K files cols rows cell_size idx [] grid = Inr grid"
| "reference_loop K files cols rows cell_size idx (frame_path # rest) grid =
     (if idx \<ge> cols * rows then Inr grid
      else
        let row = idx div cols;
            col = idx mod cols
        in case image_open files frame_path of
             Inl e \<Rightarrow> Inl e
           | Inr opened \<Rightarrow>
               (case center_crop_square (convert K opened RGB) of
                  Inl e \<Rightarrow> Inl e
                | Inr frame \<Rightarrow>
                    (case resize K frame (cell_size, cell_size) of
                       Inl e \<Rightarrow> Inl e
                     | Inr frame' \<Rightarrow>
                         let x = col * cell_size;
                             y = row * cell_size
                         in reference_loop K files cols rows cell_size (idx + 1) rest
                              (paste K grid frame' (x, y)))))"

definition create_reference_grid ::
  "pil \<Rightarrow> fs \<Rightarrow> path list \<Rightarrow> int \<Rightarrow> int \<Rightarrow> int \<Rightarrow> py_error + image" where
  "create_reference_grid K files frames cols rows resolution =
     (if frames = [] then Inl ValueError
      else if max cols rows = 0 then Inl ZeroDivisionError
      else
        let cell_size = resolution div max cols rows;
            grid_size = cell_size * max cols rows
        in case image_new RGB (grid_size, grid_size) [255, 255, 255] of
             Inl e \<Rightarrow> Inl e
           | Inr grid \<Rightarrow> reference_loop K files cols rows cell_size 0 frames grid)"

section \<open>Python floats\<close>

text \<open>
  A Python \<open>float\<close> is an IEEE 754 binary64 number: a finite value, an infinity or a
  NaN. A finite value is modelled by the rational that it denotes. The two zeros are one
  value here: Python's \<open>==\<close> does not tell them apart, and no result of the functions
  below depends on the sign of a zero.
\<close>

datatype pyfloat = Finite rat | PosInf | NegInf | NaN

text \<open>The number of binary digits of a positive integer.\<close>

function bitlen :: "int \<Rightarrow> int" where
  "bitlen n = (if n \<le> 0 then 0 else 1 + bitlen (n div 2))"
  by pat_completeness auto
termination
  by (relation "measure nat") auto

text \<open>
  The exponent of a rational \<open>q \<noteq> 0\<close>: the \<open>e\<close> with \<open>2^e \<le> \<bar>q\<bar> < 2^(e + 1)\<close>,
  found from the lengths of the numerator and the denominator.
\<close>

definition binade :: "rat \<Rightarrow> int" where
  "binade q =
     (let (a, b) = quotient_of \<bar>q\<bar>;
          k = bitlen a - bitlen b
      in if 2 powi k \<le> \<bar>q\<bar> then k else k - 1)"

text \<open>The integer nearest to \<open>n / d\<close> for \<open>d > 0\<close>, a tie going to the even one.\<close>

definition round_half_even :: "int \<Rightarrow> int \<Rightarrow> int" where
  "round_half_even n d =
     (let q = n div d; r = n mod d
      in if 2 * r < d then q else if d < 2 * r then q + 1 else if even q then q else q + 1)"

text \<open>
  Rounding to nearest, ties to even, with a significand of 53 bits: the value is
  rounded to a multiple of \<open>2^(e - 52)\<close>, where \<open>e\<close> is its exponent, and at least
  \<open>- 1022\<close> (the subnormal numbers share this exponent). A result of absolute value
  \<open>2^1024\<close> or more is an infinity.
\<close>

definition nearest_b64 :: "rat \<Rightarrow> rat" where
  "nearest_b64 q =
     (let e = max (binade q) (- 1022);
          (a, b) = quotient_of q;
          m = round_half_even (a * 2 ^ nat (52 - e)) (b * 2 ^ nat (e - 52))
      in of_int m * 2 powi (e - 52))"

definition round_b64 :: "rat \<Rightarrow> pyfloat" where
  "round_b64 q =
     (if q = 0 then Finite 0
      else
        let r = nearest_b64 q
        in if 2 ^ 1024 \<le> \<bar>r\<bar> then (if 0 < q then PosInf else NegInf) else Finite r)"

text \<open>
  The conversion of an \<open>int\<close> operand of a float operation: it raises
  \<open>OverflowError\<close> when the integer is too large for a float.
\<close>

definition float_of_int :: "int \<Rightarrow> py_error + pyfloat" where
  "float_of_int n =
     (case round_b64 (of_int n) of Finite r \<Rightarrow> Inr (Finite r) | _ \<Rightarrow> Inl OverflowError)"

text \<open>
  \<open>x * y\<close> and \<open>x / y\<close> on floats: the exact result, rounded. A division by zero
  raises \<open>ZeroDivisionError\<close>; an overflow gives an infinity and raises nothing.
\<close>

fun float_sign :: "pyfloat \<Rightarrow> int" where
  "float_sign (Finite a) = (if a < 0 then - 1 else if a = 0 then 0 else 1)"
| "float_sign PosInf = 1"
| "float_sign NegInf = - 1"
| "float_sign NaN = 0"

definition float_mul :: "pyfloat \<Rightarrow> pyfloat \<Rightarrow> pyfloat" where
  "float_mul x y =
     (case (x, y) of
        (Finite a, Finite b) \<Rightarrow> round_b64 (a * b)
      | _ \<Rightarrow>
          if x = NaN \<or> y = NaN \<or> float_sign x * float_sign y = 0 then NaN
          else if 0 < float_sign x * float_sign y then PosInf else NegInf)"

definition float_truediv :: "pyfloat \<Rightarrow> pyfloat \<Rightarrow> py_error + pyfloat" where
  "float_truediv x y =
     (if y = Finite 0 then Inl ZeroDivisionError
      else Inr (case (x, y) of
                  (Finite a, Finite b) \<Rightarrow> round_b64 (a / b)
                | (Finite a, _) \<Rightarrow> if y = NaN then NaN else Finite 0
                | (_, Finite b) \<Rightarrow>
                    if x = NaN then NaN
                    else if 0 < float_sign x * float_sign y then PosInf else NegInf
                | _ \<Rightarrow> NaN))"

text \<open>
  \<open>int(x)\<close>: the float truncated towards zero; \<open>ValueError\<close> for a NaN and
  \<open>OverflowError\<close> for an infinity.
\<close>

definition py_int :: "pyfloat \<Rightarrow> py_error + int" where
  "py_int x =
     (case x of
        Finite q \<Rightarrow> Inr (if 0 \<le> q then \<lfloor>q\<rfloor> else \<lceil>q\<rceil>)
      | NaN \<Rightarrow> Inl ValueError
      | _ \<Rightarrow> Inl OverflowError)"

section \<open>The frame and time mapping (core/video.py)\<close>

text \<open>
  \<^verbatim>\<open>
  def time_to_frame(self, time_sec: float, fps: float) -> int:
      return int(time_sec * fps)

  def frame_to_time(self, frame_num: int, fps: float) -> float:
      return frame_num / fps
  \<close>
\<close>

definition time_to_frame :: "pyfloat \<Rightarrow> pyfloat \<Rightarrow> py_error + int" where
  "time_to_frame time_sec fps = py_int (float_mul time_sec fps)"

definition frame_to_time :: "int \<Rightarrow> pyfloat \<Rightarrow> py_error + pyfloat" where
  "frame_to_time frame_num fps =
     (case float_of_int frame_num of
        Inl e \<Rightarrow> Inl e
      | Inr f \<Rightarrow> float_truediv f fps)"

section \<open>Auxiliary notions for the proofs and examples\<close>

text \<open>\<^verbatim>\<open>image.size\<close>\<close>

definition image_size :: "image \<Rightarrow> nat \<times> nat" where
  "image_size im = (width im, height im)"

text \<open>
  The pixels of the cell of index \<open>i\<close> in a grid of \<open>cols\<close> columns of cells of side \<open>s\<close>:
  row \<open>i div cols\<close>, column \<open>i mod cols\<close>.
\<close>

definition in_cell :: "int \<Rightarrow> int \<Rightarrow> int \<Rightarrow> int \<Rightarrow> int \<Rightarrow> bool" where
  "in_cell cols s i x y \<longleftrightarrow>
     i mod cols * s \<le> x \<and> x < i mod cols * s + s \<and> i div cols * s \<le> y \<and> y < i div cols * s + s"

text \<open>The crop box and the file of the cell in row \<open>row\<close> and column \<open>col\<close> of a sliced sheet.\<close>

definition cell_box :: "int \<Rightarrow> int \<Rightarrow> nat \<Rightarrow> nat \<Rightarrow> int \<times> int \<times> int \<times> int" where
  "cell_box cw ch row col = (int col * cw, int row * ch, int col * cw + cw, int row * ch + ch)"

definition cell_path :: "path \<Rightarrow> nat \<Rightarrow> nat \<Rightarrow> path" where
  "cell_path output_dir row col = output_dir @ [frame_name row col]"

text \<open>Reading a decimal numeral back, to tell file names apart.\<close>

definition undigits :: "string \<Rightarrow> nat" where
  "undigits s = foldl (\<lambda>acc c. 10 * acc + (of_char c - 48)) 0 s"

text \<open>
  Example data: a resampling filter (nearest neighbour) and a mode conversion (an opaque
  alpha band is added or the alpha band dropped) for the parameters of the model, an
  encoder for the modes \<open>RGB\<close> and \<open>RGBA\<close>, and a file system with four frames.
\<close>

definition example_pil :: pil where
  "example_pil =
     \<lparr>resample = (\<lambda>im w h x y.
                    pixel_at im (x * int (width im) div int w) (y * int (height im) div int h)),
      convert_pixels = (\<lambda>im m x y. take (bands m) (pixel_at im x y @ [255])),
      png_modes = (\<lambda>m. m = RGB \<or> m = RGBA)\<rparr>"

definition example_frame :: "nat \<Rightarrow> nat \<Rightarrow> nat \<Rightarrow> image" where
  "example_frame w h k =
     \<lparr>mode = RGB, width = w, height = h, pixel_at = (\<lambda>x y. [k, nat x mod 256, nat y mod 256])\<rparr>"

definition example_files :: fs where
  "example_files =
     [[''frames'', ''a.png''] \<mapsto> example_frame 4 2 10,
      [''frames'', ''b.png''] \<mapsto> example_frame 2 2 20,
      [''frames'', ''c.png''] \<mapsto> example_frame 1920 1080 30,
      [''tiny.png''] \<mapsto> example_frame 1 1 40]"

section \<open>Properties of the geometry\<close>

text \<open>
  C3. For all integers \<open>cols \<ge> 1\<close>, \<open>rows \<ge> 1\<close> and \<open>resolution > 0\<close>, the cell
  size \<open>c\<close> that \<open>calculate_sprite_size\<close> returns satisfies
  \<open>c * max cols rows \<le> resolution < (c + 1) * max cols rows\<close>.
\<close>

theorem calculate_sprite_size_bounds:
  assumes "1 \<le> cols" and "1 \<le> rows" and "0 < resolution"
  shows "\<exists>c. calculate_sprite_size resolution cols rows = Inr c
           \<and> c * max cols rows \<le> resolution
           \<and> resolution < (c + 1) * max cols rows"
proof -
  define m where "m = max cols rows"
  have m_pos: "0 < m"
    using assms(1) by (simp add: m_def)
  have lower: "resolution div m * m \<le> resolution"
    using m_pos by (metis div_mult_mod_eq le_add_same_cancel1 pos_mod_sign)
  have "resolution mod m < m"
    using m_pos by simp
  then have upper: "resolution < (resolution div m + 1) * m"
    by (metis add.commute distrib_right div_mult_mod_eq mult_1 add_strict_left_mono)
  have "calculate_sprite_size resolution cols rows = Inr (resolution div m)"
    using m_pos by (simp add: calculate_sprite_size_def m_def)
  with lower upper show ?thesis
    by (simp add: m_def)
qed

theorem calculate_sprite_size_bounds_witness:
  "calculate_sprite_size 1000 3 2 = Inr 333 \<and> (333::int) * max 3 2 \<le> 1000
     \<and> (1000::int) < (333 + 1) * max 3 2"
proof -
  have "\<exists>c. calculate_sprite_size 1000 3 2 = Inr c \<and> c * max 3 2 \<le> 1000
          \<and> 1000 < (c + 1) * max 3 2"
    by (rule calculate_sprite_size_bounds) simp_all
  then show ?thesis
    by (simp add: calculate_sprite_size_def)
qed

section \<open>Properties of the image operations\<close>

lemma paste_dims [simp]:
  "width (paste K dst src pos) = width dst"
  "height (paste K dst src pos) = height dst"
  "mode (paste K dst src pos) = mode dst"
  by (simp_all add: paste_def Let_def split: prod.splits)

lemma resize_dims:
  assumes "resize K im (s, s) = Inr im'" "1 \<le> s"
  shows "int (width im') = s \<and> int (height im') = s \<and> mode im' = mode im"
  using assms by (auto simp: resize_def split: if_splits)

lemma paste_source_dims [simp]:
  "width (paste_source K dst src) = width src"
  "height (paste_source K dst src) = height src"
  "mode (paste_source K dst src) = mode dst"
  by (auto simp: paste_source_def convert_def)

lemma paste_source_mode_cong:
  "mode dst = mode dst' \<Longrightarrow> paste_source K dst src = paste_source K dst' src"
  by (simp add: paste_source_def)

section \<open>Properties of the compositor loops\<close>

text \<open>The loops keep the size and the mode of the canvas.\<close>

lemma compose_loop_dims:
  "compose_loop K files cols rows s idx ps grid = Inr g \<Longrightarrow>
     width g = width grid \<and> height g = height grid \<and> mode g = mode grid"
proof (induction ps arbitrary: idx grid)
  case Nil
  then show ?case by simp
next
  case (Cons p ps)
  show ?case
  proof (cases "idx \<ge> cols * rows")
    case True
    with Cons.prems show ?thesis by simp
  next
    case False
    with Cons.prems obtain frame frame' where
      "compose_loop K files cols rows s (idx + 1) ps
          (paste K grid frame' (idx mod cols * s, idx div cols * s)) = Inr g"
      by (auto simp: Let_def split: sum.splits)
    from Cons.IH[OF this] show ?thesis by simp
  qed
qed

lemma reference_loop_dims:
  "reference_loop K files cols rows s idx ps grid = Inr g \<Longrightarrow>
     width g = width grid \<and> height g = height grid \<and> mode g = mode grid"
proof (induction ps arbitrary: idx grid)
  case Nil
  then show ?case by simp
next
  case (Cons p ps)
  show ?case
  proof (cases "idx \<ge> cols * rows")
    case True
    with Cons.prems show ?thesis by simp
  next
    case False
    with Cons.prems obtain frame' where
      "reference_loop K files cols rows s (idx + 1) ps
          (paste K grid frame' (idx mod cols * s, idx div cols * s)) = Inr g"
      by (auto simp: Let_def split: sum.splits)
    from Cons.IH[OF this] show ?thesis by simp
  qed
qed

text \<open>Frames from index \<open>cols * rows\<close> on are not read.\<close>

lemma compose_loop_take:
  "0 \<le> idx \<Longrightarrow> compose_loop K files cols rows s idx ps grid =
     compose_loop K files cols rows s idx (take (nat (cols * rows - idx)) ps) grid"
proof (induction ps arbitrary: idx grid)
  case Nil
  then show ?case by simp
next
  case (Cons p ps)
  show ?case
  proof (cases "idx \<ge> cols * rows")
    case True
    then show ?thesis by simp
  next
    case False
    then have n: "nat (cols * rows - idx) = Suc (nat (cols * rows - (idx + 1)))"
      by simp
    have "0 \<le> idx + 1" using Cons.prems by simp
    note IH = Cons.IH[OF this]
    show ?thesis
      unfolding n take_Suc_Cons
      using False IH by (simp add: Let_def split: sum.splits)
  qed
qed

lemma reference_loop_take:
  "0 \<le> idx \<Longrightarrow> reference_loop K files cols rows s idx ps grid =
     reference_loop K files cols rows s idx (take (nat (cols * rows - idx)) ps) grid"
proof (induction ps arbitrary: idx grid)
  case Nil
  then show ?case by simp
next
  case (Cons p ps)
  show ?case
  proof (cases "idx \<ge> cols * rows")
    case True
    then show ?thesis by simp
  next
    case False
    then have n: "nat (cols * rows - idx) = Suc (nat (cols * rows - (idx + 1)))"
      by simp
    have "0 \<le> idx + 1" using Cons.prems by simp
    note IH = Cons.IH[OF this]
    show ?thesis
      unfolding n take_Suc_Cons
      using False IH by (simp add: Let_def split: sum.splits)
  qed
qed

text \<open>Two cells that share a pixel are the same cell.\<close>

lemma in_cell_unique:
  assumes "1 \<le> cols" "1 \<le> s" "in_cell cols s i x y" "in_cell cols s j x y"
  shows "i = j"
proof -
  have s: "0 < s" using assms(2) by simp
  have "x div s = i mod cols"
    using assms(3) s unfolding in_cell_def
    by (intro int_div_pos_eq[where r = "x - i mod cols * s"]) (auto simp: algebra_simps)
  moreover have "x div s = j mod cols"
    using assms(4) s unfolding in_cell_def
    by (intro int_div_pos_eq[where r = "x - j mod cols * s"]) (auto simp: algebra_simps)
  moreover have "y div s = i div cols"
    using assms(3) s unfolding in_cell_def
    by (intro int_div_pos_eq[where r = "y - i div cols * s"]) (auto simp: algebra_simps)
  moreover have "y div s = j div cols"
    using assms(4) s unfolding in_cell_def
    by (intro int_div_pos_eq[where r = "y - j div cols * s"]) (auto simp: algebra_simps)
  ultimately have "i mod cols = j mod cols" "i div cols = j div cols" by simp_all
  then show ?thesis by (metis div_mult_mod_eq)
qed

text \<open>Pixels outside the cells that the loop fills keep their value.\<close>
lemma compose_loop_outside:
  assumes "compose_loop K files cols rows s idx ps grid = Inr g" "1 \<le> s"
    and "\<forall>i. idx \<le> i \<and> i < idx + int (length ps) \<longrightarrow> \<not> in_cell cols s i x y"
  shows "pixel_at g x y = pixel_at grid x y"
  using assms
proof (induction ps arbitrary: idx grid)
  case Nil
  then show ?case by simp
next
  case (Cons p ps)
  show ?case
  proof (cases "idx \<ge> cols * rows")
    case True
    with Cons.prems show ?thesis by simp
  next
    case False
    with Cons.prems(1) obtain frame frame' where
      fr: "resize K frame (s, s) = Inr frame'" and
      rest: "compose_loop K files cols rows s (idx + 1) ps
          (paste K grid frame' (idx mod cols * s, idx div cols * s)) = Inr g"
      by (auto simp: Let_def split: sum.splits)
    have out: "\<forall>i. idx + 1 \<le> i \<and> i < idx + 1 + int (length ps) \<longrightarrow> \<not> in_cell cols s i x y"
      using Cons.prems(3) by auto
    have "pixel_at g x y = pixel_at (paste K grid frame' (idx mod cols * s, idx div cols * s)) x y"
      using Cons.IH[OF rest Cons.prems(2) out] .
    moreover have "\<not> in_cell cols s idx x y"
      using Cons.prems(3) by auto
    ultimately show ?thesis
      using resize_dims[OF fr Cons.prems(2)]
      by (auto simp: paste_def Let_def in_cell_def)
  qed
qed

text \<open>The cell of index \<open>idx + j\<close> holds the frame \<open>ps ! j\<close>, resized and in the mode of the grid.\<close>
lemma compose_loop_cell:
  assumes "compose_loop K files cols rows s idx ps grid = Inr g"
    and "1 \<le> cols" "1 \<le> s" "0 \<le> idx" "idx + int (length ps) \<le> cols * rows"
    and "j < length ps"
    and "0 \<le> x" "x < s" "0 \<le> y" "y < s"
  shows "\<exists>frame frame'. image_open files (ps ! j) = Inr frame \<and> resize K frame (s, s) = Inr frame'
           \<and> pixel_at g ((idx + int j) mod cols * s + x) ((idx + int j) div cols * s + y)
               = pixel_at (paste_source K grid frame') x y"
  using assms(1,4,5,6)
proof (induction ps arbitrary: idx grid j)
  case Nil
  then show ?case by simp
next
  case (Cons p ps)
  have lt: "idx < cols * rows" using Cons.prems by auto
  with Cons.prems(1) obtain frame frame' where
      op: "image_open files p = Inr frame" and
      fr: "resize K frame (s, s) = Inr frame'" and
      rest: "compose_loop K files cols rows s (idx + 1) ps
          (paste K grid frame' (idx mod cols * s, idx div cols * s)) = Inr g"
    by (auto simp: Let_def split: sum.splits)
  let ?grid' = "paste K grid frame' (idx mod cols * s, idx div cols * s)"
  show ?case
  proof (cases j)
    case 0
    let ?X = "idx mod cols * s + x" and ?Y = "idx div cols * s + y"
    have inc: "in_cell cols s idx ?X ?Y"
      using assms(7-10) by (simp add: in_cell_def)
    have "\<forall>i. idx + 1 \<le> i \<and> i < idx + 1 + int (length ps) \<longrightarrow> \<not> in_cell cols s i ?X ?Y"
      using in_cell_unique[OF assms(2,3) _ inc] by fastforce
    from compose_loop_outside[OF rest assms(3) this]
    have "pixel_at g ?X ?Y = pixel_at ?grid' ?X ?Y" .
    also have "\<dots> = pixel_at (paste_source K grid frame') x y"
      using resize_dims[OF fr assms(3)] assms(7-10)
      by (simp add: paste_def Let_def)
    finally show ?thesis using op fr 0 by simp
  next
    case (Suc k)
    have "\<exists>frame frame'. image_open files (ps ! k) = Inr frame \<and> resize K frame (s, s) = Inr frame'
           \<and> pixel_at g ((idx + 1 + int k) mod cols * s + x) ((idx + 1 + int k) div cols * s + y)
               = pixel_at (paste_source K ?grid' frame') x y"
      using Cons.prems Suc by (intro Cons.IH[OF rest]) auto
    moreover have "\<And>f. paste_source K ?grid' f = paste_source K grid f"
      by (rule paste_source_mode_cong) simp
    moreover have "idx + 1 + int k = idx + int j" using Suc by simp
    ultimately show ?thesis using Suc by simp
  qed
qed

text \<open>The loop returns when every frame opens.\<close>
lemma compose_loop_returns:
  assumes "1 \<le> s" "\<forall>p\<in>set ps. files p \<noteq> None"
  shows "\<exists>g. compose_loop K files cols rows s idx ps grid = Inr g"
  using assms(2)
proof (induction ps arbitrary: idx grid)
  case Nil
  then show ?case by simp
next
  case (Cons p ps)
  from Cons.prems obtain frame where op: "image_open files p = Inr frame"
    by (auto simp: image_open_def)
  obtain frame' where fr: "resize K frame (s, s) = Inr frame'"
    using assms(1) by (cases "int (width frame) = s \<and> int (height frame) = s") (auto simp: resize_def)
  show ?case using Cons.IH[of "idx + 1"] Cons.prems op fr
    by (simp add: Let_def)
qed

section \<open>Properties of the file names\<close>

lemma undigits_snoc: "undigits (s @ [c]) = 10 * undigits s + (of_char c - 48)"
  by (simp add: undigits_def)

declare digits10.simps [simp del]

lemma undigits_digits10: "undigits (digits10 n) = n"
proof (induction n rule: digits10.induct)
  case (1 n)
  show ?case
  proof (cases "n < 10")
    case True
    then show ?thesis
      by (subst digits10.simps) (simp add: undigits_def)
  next
    case False
    have "n mod 10 < 10" by simp
    then have "of_char (char_of (48 + n mod 10) :: char) - 48 = n mod 10"
      by (simp add: of_char_of)
    with False 1 show ?thesis
      by (subst digits10.simps) (simp add: undigits_snoc)
  qed
qed

lemma undigits_zeros: "undigits (replicate k (CHR ''0'') @ s) = undigits s"
proof -
  have "foldl (\<lambda>acc c. 10 * acc + (of_char c - 48)) 0 (replicate k (CHR ''0'')) = (0::nat)"
    by (induction k) simp_all
  then show ?thesis by (simp add: undigits_def)
qed

lemma undigits_format_02d: "undigits (format_02d n) = n"
  by (simp add: format_02d_def Let_def undigits_zeros undigits_digits10)

lemma format_02d_inj: "format_02d n = format_02d m \<Longrightarrow> n = m"
  by (metis undigits_format_02d)

lemma underscore_digits10: "CHR ''_'' \<notin> set (digits10 n)"
proof (induction n rule: digits10.induct)
  case (1 n)
  have d: "(char_of (48 + d) :: char) \<noteq> CHR ''_''" if "d < 10" for d :: nat
  proof
    assume "(char_of (48 + d) :: char) = CHR ''_''"
    then have "of_char (char_of (48 + d) :: char) = (of_char (CHR ''_'') :: nat)" by simp
    with that show False by (simp add: of_char_of)
  qed
  show ?case
  proof (cases "n < 10")
    case True
    then show ?thesis using d[of n] by (subst digits10.simps) auto
  next
    case False
    with 1 show ?thesis using d[of "n mod 10"] by (subst digits10.simps) auto
  qed
qed

lemma underscore_format_02d: "CHR ''_'' \<notin> set (format_02d n)"
  by (auto simp: format_02d_def Let_def underscore_digits10)

lemma frame_name_inj:
  assumes "frame_name r c = frame_name r' c'"
  shows "r = r' \<and> c = c'"
proof -
  from assms have "format_02d r @ CHR ''_'' # (format_02d c @ ''.png'')
                 = format_02d r' @ CHR ''_'' # (format_02d c' @ ''.png'')"
    by (simp add: frame_name_def)
  then have "format_02d r = format_02d r' \<and> format_02d c @ ''.png'' = format_02d c' @ ''.png''"
    using underscore_format_02d by (simp add: append_Cons_eq_iff)
  then show ?thesis by (auto dest: format_02d_inj)
qed

section \<open>Properties of the slicer loops\<close>

lemma cell_path_inj: "cell_path out r c = cell_path out r' c' \<Longrightarrow> r = r' \<and> c = c'"
  by (simp add: cell_path_def frame_name_inj)

lemma crop_cell:
  assumes "0 < cw" "0 < ch"
  shows "\<exists>cell. crop img (cell_box cw ch row col) = Inr cell \<and> int (width cell) = cw
           \<and> int (height cell) = ch \<and> mode cell = mode img"
  using assms by (simp add: crop_def cell_box_def)

lemma slice_cols_ok:
  assumes "png_modes K (mode img)" "0 < cw" "0 < ch" "distinct cs"
  shows "\<exists>files'. slice_cols K img cw ch out row cs (frames, files)
             = (Inr (frames @ map (cell_path out row) cs), files')
           \<and> (\<forall>c\<in>set cs. image_open files' (cell_path out row c) = crop img (cell_box cw ch row c))
           \<and> (\<forall>p. p \<notin> cell_path out row ` set cs \<longrightarrow> files' p = files p)"
  using assms(4)
proof (induction cs arbitrary: frames files)
  case Nil
  then show ?case by simp
next
  case (Cons c cs)
  obtain cell where cell: "crop img (cell_box cw ch row c) = Inr cell" "int (width cell) = cw"
      "int (height cell) = ch" "mode cell = mode img"
    using crop_cell[OF assms(2,3)] by blast
  let ?p = "cell_path out row c"
  let ?files1 = "files(?p \<mapsto> cell)"
  have sv: "image_save K files cell ?p = (Inr (), ?files1)"
    using cell assms(1,2,3) by (simp add: image_save_def)
  from Cons.prems have dc: "distinct cs" and notin: "c \<notin> set cs" by simp_all
  from Cons.IH[OF dc, of "frames @ [?p]" ?files1]
  obtain files' where
    r: "slice_cols K img cw ch out row cs (frames @ [?p], ?files1)
             = (Inr ((frames @ [?p]) @ map (cell_path out row) cs), files')"
    and a: "\<forall>c\<in>set cs. image_open files' (cell_path out row c) = crop img (cell_box cw ch row c)"
    and b: "\<forall>p. p \<notin> cell_path out row ` set cs \<longrightarrow> files' p = ?files1 p"
    by blast
  have step: "slice_cols K img cw ch out row (c # cs) (frames, files)
        = slice_cols K img cw ch out row cs (frames @ [?p], ?files1)"
    using cell(1) sv by (simp add: Let_def cell_box_def cell_path_def)
  have "?p \<notin> cell_path out row ` set cs"
    using notin by (auto dest: cell_path_inj)
  with b have "files' ?p = Some cell" by simp
  then have hd: "image_open files' ?p = crop img (cell_box cw ch row c)"
    using cell(1) by (simp add: image_open_def)
  have fr: "\<forall>p. p \<notin> cell_path out row ` set (c # cs) \<longrightarrow> files' p = files p"
    using b by auto
  show ?case
    using step r a hd fr by auto
qed

lemma slice_rows_ok:
  assumes "png_modes K (mode img)" "0 < cw" "0 < ch" "distinct rs"
  shows "\<exists>files'. slice_rows K img cw ch out cols rs (frames, files)
             = (Inr (frames @ concat (map (\<lambda>r. map (cell_path out r) [0..<nat cols]) rs)), files')
           \<and> (\<forall>r\<in>set rs. \<forall>c<nat cols.
                 image_open files' (cell_path out r c) = crop img (cell_box cw ch r c))
           \<and> (\<forall>p. (\<forall>r\<in>set rs. \<forall>c<nat cols. p \<noteq> cell_path out r c) \<longrightarrow> files' p = files p)"
  using assms(4)
proof (induction rs arbitrary: frames files)
  case Nil
  then show ?case by simp
next
  case (Cons r rs)
  from slice_cols_ok[OF assms(1,2,3), of "[0..<nat cols]" out r frames files]
  obtain files1 where
    c1: "slice_cols K img cw ch out r [0..<nat cols] (frames, files)
             = (Inr (frames @ map (cell_path out r) [0..<nat cols]), files1)"
    and c2': "\<forall>c\<in>set [0..<nat cols].
                image_open files1 (cell_path out r c) = crop img (cell_box cw ch r c)"
    and c3': "\<forall>p. p \<notin> cell_path out r ` set [0..<nat cols] \<longrightarrow> files1 p = files p"
    by auto
  have c2: "\<forall>c<nat cols. image_open files1 (cell_path out r c) = crop img (cell_box cw ch r c)"
    using c2' by simp
  have c3: "\<forall>p. (\<forall>c<nat cols. p \<noteq> cell_path out r c) \<longrightarrow> files1 p = files p"
  proof (intro allI impI)
    fix p assume "\<forall>c<nat cols. p \<noteq> cell_path out r c"
    then have "p \<notin> cell_path out r ` set [0..<nat cols]" by auto
    with c3' show "files1 p = files p" by blast
  qed
  from Cons.prems have dr: "distinct rs" and notin: "r \<notin> set rs" by simp_all
  from Cons.IH[OF dr, of "frames @ map (cell_path out r) [0..<nat cols]" files1]
  obtain files' where
    r1: "slice_rows K img cw ch out cols rs (frames @ map (cell_path out r) [0..<nat cols], files1)
          = (Inr ((frames @ map (cell_path out r) [0..<nat cols])
                   @ concat (map (\<lambda>r. map (cell_path out r) [0..<nat cols]) rs)), files')"
    and r2: "\<forall>r\<in>set rs. \<forall>c<nat cols.
                 image_open files' (cell_path out r c) = crop img (cell_box cw ch r c)"
    and r3: "\<forall>p. (\<forall>r\<in>set rs. \<forall>c<nat cols. p \<noteq> cell_path out r c) \<longrightarrow> files' p = files1 p"
    by blast
  have step: "slice_rows K img cw ch out cols (r # rs) (frames, files)
      = slice_rows K img cw ch out cols rs (frames @ map (cell_path out r) [0..<nat cols], files1)"
    using c1 by simp
  have hd: "\<forall>c<nat cols. image_open files' (cell_path out r c) = crop img (cell_box cw ch r c)"
  proof (intro allI impI)
    fix c assume "c < nat cols"
    have "\<forall>r'\<in>set rs. \<forall>c'<nat cols. cell_path out r c \<noteq> cell_path out r' c'"
      using notin by (auto dest: cell_path_inj)
    with r3 have "files' (cell_path out r c) = files1 (cell_path out r c)" by blast
    with c2 \<open>c < nat cols\<close> show "image_open files' (cell_path out r c) = crop img (cell_box cw ch r c)"
      by (simp add: image_open_def)
  qed
  have fr: "\<forall>p. (\<forall>r'\<in>set (r # rs). \<forall>c<nat cols. p \<noteq> cell_path out r' c) \<longrightarrow> files' p = files p"
    using r3 c3 by auto
  show ?case
    using step r1 r2 hd fr by auto
qed

lemma nth_concat_grid:
  "i < R * C \<Longrightarrow>
     concat (map (\<lambda>r. map (f r) [0..<C]) [0..<R]) ! i = f (i div C) (i mod C)"
proof (induction R)
  case 0
  then show ?case by simp
next
  case (Suc R)
  have len: "length (concat (map (\<lambda>r. map (f r) [0..<C]) [0..<R])) = R * C"
    by (induction R) simp_all
  show ?case
  proof (cases "i < R * C")
    case True
    with Suc.IH len show ?thesis by (simp add: nth_append)
  next
    case False
    then have ge: "R * C \<le> i" by simp
    from Suc.prems have lt: "i - R * C < C" using ge by simp
    have C: "0 < C" using lt by auto
    have d: "i div C = R"
      using ge Suc.prems C
      by (metis (no_types) div_nat_eqI mult.commute mult_Suc)
    have m: "i mod C = i - R * C"
      using d by (metis minus_mult_div_eq_mod mult.commute)
    show ?thesis using False len lt d m by (simp add: nth_append)
  qed
qed

lemma length_concat_grid:
  "length (concat (map (\<lambda>r. map (f r) [0..<C]) [0..<R])) = R * C"
  by (induction R) simp_all

lemma slice_grid_ok:
  assumes "1 \<le> cols" "1 \<le> rows" "files image_path = Some img"
    and "cols \<le> int (width img)" "rows \<le> int (height img)" "png_modes K (mode img)"
  shows "\<exists>paths files'.
           slice_grid K files image_path cols rows output_dir = (Inr paths, files')
         \<and> int (length paths) = cols * rows
         \<and> (\<forall>i<length paths.
               paths ! i = output_dir @ [frame_name (i div nat cols) (i mod nat cols)]
             \<and> image_open files' (paths ! i)
                 = crop img (cell_box (int (width img) div cols) (int (height img) div rows)
                               (i div nat cols) (i mod nat cols)))"
proof -
  define cw where "cw = int (width img) div cols"
  define ch where "ch = int (height img) div rows"
  have cw: "0 < cw" using assms(1,4) by (simp add: cw_def pos_imp_zdiv_pos_iff)
  have ch: "0 < ch" using assms(2,5) by (simp add: ch_def pos_imp_zdiv_pos_iff)
  define paths where
    "paths = concat (map (\<lambda>r. map (cell_path output_dir r) [0..<nat cols]) [0..<nat rows])"
  from slice_rows_ok[OF assms(6) cw ch, of "[0..<nat rows]" output_dir cols "[]" files]
  obtain files' where
    r: "slice_rows K img cw ch output_dir cols [0..<nat rows] ([], files) = (Inr paths, files')"
    and c: "\<forall>r<nat rows. \<forall>c<nat cols.
              image_open files' (cell_path output_dir r c) = crop img (cell_box cw ch r c)"
    by (auto simp: paths_def)
  have sg: "slice_grid K files image_path cols rows output_dir = (Inr paths, files')"
    using assms(1,2,3) r by (simp add: slice_grid_def image_open_def Let_def cw_def ch_def)
  have len: "length paths = nat rows * nat cols"
    by (simp add: paths_def length_concat_grid)
  then have len': "int (length paths) = cols * rows"
    using assms(1,2) by (simp add: nat_mult_distrib[symmetric] mult.commute)
  have cells: "paths ! i = output_dir @ [frame_name (i div nat cols) (i mod nat cols)]
             \<and> image_open files' (paths ! i)
                 = crop img (cell_box cw ch (i div nat cols) (i mod nat cols))"
    if "i < length paths" for i
  proof -
    from that len have i: "i < nat rows * nat cols" by simp
    then have p: "paths ! i = cell_path output_dir (i div nat cols) (i mod nat cols)"
      unfolding paths_def by (rule nth_concat_grid)
    have "0 < nat cols" using assms(1) by simp
    then have "i mod nat cols < nat cols" by simp
    moreover have "i div nat cols < nat rows"
      using i by (simp add: less_mult_imp_div_less)
    ultimately show ?thesis using p c by (simp add: cell_path_def)
  qed
  show ?thesis
    using sg len' cells unfolding cw_def ch_def by blast
qed

section \<open>Properties of the rounding\<close>

declare bitlen.simps [simp del]

lemma bitlen_bounds:
  "0 < n \<Longrightarrow> 1 \<le> bitlen n \<and> (2::rat) powi (bitlen n - 1) \<le> of_int n \<and> of_int n < (2::rat) powi (bitlen n)"
proof (induction n rule: bitlen.induct)
  case (1 n)
  show ?case
  proof (cases "n div 2 = 0")
    case True
    with "1.prems" have n: "n = 1" by (simp add: zdiv_eq_0_iff)
    have "bitlen 1 = 1"
      by (subst bitlen.simps, subst bitlen.simps) simp
    with n show ?thesis by simp
  next
    case False
    with "1.prems" have pos: "0 < n div 2"
      by (simp add: pos_imp_zdiv_pos_iff)
    from "1.IH"[OF _ pos] "1.prems" have IH:
      "1 \<le> bitlen (n div 2)"
      "(2::rat) powi (bitlen (n div 2) - 1) \<le> of_int (n div 2)"
      "of_int (n div 2) < (2::rat) powi (bitlen (n div 2))"
      by simp_all
    have b: "bitlen n = 1 + bitlen (n div 2)"
      using "1.prems" by (subst bitlen.simps) simp
    define k where "k = bitlen (n div 2)"
    have lo: "2 * (n div 2) \<le> n" and hi: "n \<le> 2 * (n div 2) + 1"
      by presburger+
    have p1: "(2::rat) powi k = 2 * 2 powi (k - 1)"
      using power_int_add_1'[of "2::rat" "k - 1"] by simp
    have p2: "(2::rat) powi (1 + k) = 2 * 2 powi k"
      using power_int_add_1'[of "2::rat" k] by (simp add: add.commute)
    have "(2::rat) powi k \<le> 2 * of_int (n div 2)"
      using IH(2) unfolding k_def[symmetric] p1 by simp
    also have "\<dots> \<le> of_int n"
      using lo by (metis of_int_le_iff of_int_mult of_int_numeral)
    finally have A: "(2::rat) powi k \<le> of_int n" .
    have "\<exists>j::nat. k = int j" using IH(1) unfolding k_def by (metis nonneg_int_cases order_trans zero_le_one)
    then obtain j :: nat where j: "k = int j" by blast
    have "of_int (n div 2) < (2::rat) ^ j"
      using IH(3) unfolding k_def[symmetric] j by simp
    then have "n div 2 < 2 ^ j"
      by (metis of_int_less_iff of_int_numeral of_int_power)
    then have "n < 2 * 2 ^ j" using hi by linarith
    then have "(of_int n :: rat) < 2 * 2 ^ j"
      by (metis of_int_less_iff of_int_mult of_int_numeral of_int_power)
    moreover have "(2::rat) powi (1 + k) = 2 * 2 ^ j"
      using p2 j by simp
    ultimately have B: "of_int n < (2::rat) powi (1 + k)"
      by simp
    show ?thesis
      using A B IH(1) unfolding b k_def[symmetric] by simp
  qed
qed

lemma powi_succ: "(2::rat) powi (k + 1) = 2 * 2 powi k"
  using power_int_add_1'[of "2::rat" k] by simp

lemma powi_pos: "0 < (2::rat) powi k"
  by (simp add: zero_less_power_int)

lemma binade_bounds:
  assumes "q \<noteq> 0"
  shows "(2::rat) powi (binade q) \<le> \<bar>q\<bar> \<and> \<bar>q\<bar> < 2 powi (binade q + 1)"
proof -
  obtain a b where ab: "quotient_of \<bar>q\<bar> = (a, b)" by (cases "quotient_of \<bar>q\<bar>")
  have b: "0 < b" using ab by (rule quotient_of_denom_pos)
  have q: "\<bar>q\<bar> = of_int a / of_int b" using ab by (rule quotient_of_div)
  have "0 < \<bar>q\<bar>" using assms by simp
  then have a: "0 < a" unfolding q using b by (simp add: zero_less_divide_iff)
  define k where "k = bitlen a - bitlen b"
  note A = bitlen_bounds[OF a] and B = bitlen_bounds[OF b]
  have bpos: "(0::rat) < of_int b" using b by simp
  have e1: "(2::rat) powi (bitlen a) = 2 powi (k + 1) * 2 powi (bitlen b - 1)"
    by (simp add: k_def power_int_add[symmetric])
  have e2: "(2::rat) powi (bitlen a - 1) * 2 = 2 powi k * 2 powi (bitlen b) "
    using powi_succ[of "bitlen a - 1"] by (simp add: k_def power_int_add[symmetric])
  have up: "\<bar>q\<bar> < 2 powi (k + 1)"
  proof -
    have "of_int a < (2::rat) powi (k + 1) * 2 powi (bitlen b - 1)"
      using A e1 by simp
    also have "\<dots> \<le> 2 powi (k + 1) * of_int b"
      using B powi_pos[of "k + 1"] by (simp add: mult_left_mono)
    finally show ?thesis
      unfolding q using bpos by (simp add: pos_divide_less_eq)
  qed
  have lo: "2 powi (k - 1) < \<bar>q\<bar>"
  proof -
    have "(2::rat) powi (k - 1) * of_int b < 2 powi (k - 1) * 2 powi (bitlen b)"
      using B powi_pos[of "k - 1"] by (simp add: mult_strict_left_mono)
    also have "\<dots> = 2 powi (bitlen a - 1)"
      by (simp add: k_def power_int_add[symmetric])
    also have "\<dots> \<le> of_int a"
      using A by simp
    finally show ?thesis
      unfolding q using bpos by (simp add: pos_less_divide_eq)
  qed
  have bin: "binade q = (if 2 powi k \<le> \<bar>q\<bar> then k else k - 1)"
    by (simp add: binade_def ab k_def Let_def)
  show ?thesis
  proof (cases "2 powi k \<le> \<bar>q\<bar>")
    case True
    then show ?thesis using up bin by simp
  next
    case False
    then show ?thesis using lo bin by simp
  qed
qed

lemma round_half_even_error:
  assumes "0 < d"
  shows "\<bar>of_int (round_half_even n d) - (of_int n / of_int d :: rat)\<bar> \<le> 1 / 2"
proof -
  define q r where "q = n div d" and "r = n mod d"
  have n: "n = d * q + r" by (simp add: q_def r_def)
  have r: "0 \<le> r" "r < d" using assms by (simp_all add: r_def)
  have dpos: "(0::rat) < of_int d" using assms by simp
  have frac: "(of_int n / of_int d :: rat) = of_int q + of_int r / of_int d"
    using dpos by (simp add: n add_divide_distrib)
  have rd: "0 \<le> (of_int r / of_int d :: rat)" "(of_int r / of_int d :: rat) < 1"
    using r dpos by simp_all
  consider "2 * r < d" | "d < 2 * r" | "2 * r = d" by linarith
  then show ?thesis
  proof cases
    case 1
    then have "(of_int (2 * r) :: rat) < of_int d" by (simp only: of_int_less_iff)
    then have "(of_int r / of_int d :: rat) < 1 / 2"
      using dpos by (simp add: pos_divide_less_eq)
    moreover have "round_half_even n d = q"
      using 1 by (simp add: round_half_even_def Let_def q_def r_def)
    ultimately show ?thesis using rd frac by simp
  next
    case 2
    then have "(of_int d :: rat) < of_int (2 * r)" by (simp only: of_int_less_iff)
    then have "1 / 2 < (of_int r / of_int d :: rat)"
      using dpos by (simp add: pos_less_divide_eq)
    moreover have "round_half_even n d = q + 1"
      using 2 by (simp add: round_half_even_def Let_def q_def r_def)
    ultimately show ?thesis using rd frac by simp
  next
    case 3
    then have "(of_int (2 * r) :: rat) = of_int d" by (simp only: of_int_eq_iff)
    then have "(of_int r / of_int d :: rat) = 1 / 2"
      using dpos by (simp add: divide_eq_eq)
    moreover have "round_half_even n d = q \<or> round_half_even n d = q + 1"
      using 3 by (simp add: round_half_even_def Let_def q_def r_def)
    ultimately show ?thesis using frac by auto
  qed
qed

lemma round_half_even_nonneg:
  "0 < d \<Longrightarrow> 0 \<le> n \<Longrightarrow> 0 \<le> round_half_even n d"
  by (simp add: round_half_even_def Let_def pos_imp_zdiv_nonneg_iff)

text \<open>The scaled quotient that is rounded to an integer is q / 2^(e - 52).\<close>
lemma scaled_quotient:
  assumes "quotient_of q = (a, b)"
  shows "(of_int (a * 2 ^ nat (52 - e)) / of_int (b * 2 ^ nat (e - 52)) :: rat) = q * 2 powi (52 - e)"
proof -
  have q: "q = of_int a / of_int b" using assms by (rule quotient_of_div)
  show ?thesis
  proof (cases "e \<le> 52")
    case True
    then have "(2::rat) powi (52 - e) = 2 ^ nat (52 - e)"
      by (simp add: power_int_def)
    with True show ?thesis by (simp add: q)
  next
    case False
    then have "(2::rat) powi (52 - e) = 1 / 2 ^ nat (e - 52)"
      by (simp add: power_int_def power_one_over)
    then show ?thesis using False by (simp add: q)
  qed
qed

lemma round_b64_rounded:
  "q \<noteq> 0 \<Longrightarrow> round_b64 q =
     (if 2 ^ 1024 \<le> \<bar>nearest_b64 q\<bar> then (if 0 < q then PosInf else NegInf) else Finite (nearest_b64 q))"
  unfolding round_b64_def Let_def by (simp only: if_False)

lemma rounded_error:
  assumes "q \<noteq> 0"
  shows "\<bar>nearest_b64 q - q\<bar> \<le> 2 powi (max (binade q) (- 1022) - 53)"
proof -
  define e where "e = max (binade q) (- 1022)"
  obtain a b where ab: "quotient_of q = (a, b)" by (cases "quotient_of q")
  have b: "0 < b" using ab by (rule quotient_of_denom_pos)
  define N D where "N = a * 2 ^ nat (52 - e)" and "D = b * 2 ^ nat (e - 52)"
  have D: "0 < D" using b by (simp add: D_def)
  define m where "m = round_half_even N D"
  have r: "nearest_b64 q = of_int m * 2 powi (e - 52)"
    by (simp add: nearest_b64_def ab e_def[symmetric] m_def N_def D_def Let_def)
  have sq: "(of_int N / of_int D :: rat) = q * 2 powi (52 - e)"
    unfolding N_def D_def using ab by (rule scaled_quotient)
  have err: "\<bar>of_int m - q * 2 powi (52 - e)\<bar> \<le> 1 / 2"
    using round_half_even_error[OF D, of N] unfolding m_def sq .
  have inv: "(2::rat) powi (52 - e) * 2 powi (e - 52) = 1"
    by (simp add: power_int_add[symmetric])
  have "nearest_b64 q - q = (of_int m - q * 2 powi (52 - e)) * 2 powi (e - 52)"
    using inv by (simp add: r algebra_simps)
  then have "\<bar>nearest_b64 q - q\<bar> = \<bar>of_int m - q * 2 powi (52 - e)\<bar> * 2 powi (e - 52)"
    using powi_pos[of "e - 52"] by (simp add: abs_mult)
  also have "\<dots> \<le> 1 / 2 * 2 powi (e - 52)"
    using err powi_pos[of "e - 52"] by (simp add: mult_right_mono)
  also have "\<dots> = 2 powi (e - 53)"
    using powi_succ[of "e - 53"] by simp
  finally show ?thesis unfolding e_def .
qed

lemma rounded_nonneg:
  assumes "0 < q"
  shows "0 \<le> nearest_b64 q"
proof -
  obtain a b where ab: "quotient_of q = (a, b)" by (cases "quotient_of q")
  have b: "0 < b" using ab by (rule quotient_of_denom_pos)
  have "q = of_int a / of_int b" using ab by (rule quotient_of_div)
  with assms b have a: "0 < a" by (simp add: zero_less_divide_iff)
  have "0 \<le> round_half_even (a * 2 ^ nat (52 - e)) (b * 2 ^ nat (e - 52))" for e
    using a b by (intro round_half_even_nonneg) simp_all
  then show ?thesis
    using powi_pos by (simp add: nearest_b64_def ab Let_def)
qed

text \<open>A rational of the normal range is rounded with a relative error of at most 2^-53.\<close>
lemma round_b64_normal:
  assumes "2 powi (- 1022) \<le> q" "q < 2 ^ 1023"
  shows "\<exists>r. round_b64 q = Finite r \<and> \<bar>r - q\<bar> \<le> q / 2 ^ 53 \<and> 0 \<le> r"
proof -
  have qpos: "0 < q" using assms(1) powi_pos[of "- 1022"] by linarith
  then have q0: "q \<noteq> 0" by simp
  note bb = binade_bounds[OF q0]
  have "(2::rat) powi (- 1022) < 2 powi (binade q + 1)"
    using bb assms(1) qpos by simp
  have "- 1022 < binade q + 1"
  proof (rule ccontr)
    assume "\<not> - 1022 < binade q + 1"
    then have "binade q + 1 \<le> - 1022" by simp
    then have "(2::rat) powi (binade q + 1) \<le> 2 powi (- 1022)"
      by (intro power_int_increasing) simp_all
    with \<open>(2::rat) powi (- 1022) < 2 powi (binade q + 1)\<close> show False by simp
  qed
  then have e: "max (binade q) (- 1022) = binade q" by simp
  have "(2::rat) powi (binade q - 53) = 2 powi (binade q) / 2 powi 53"
    by (rule power_int_diff) simp
  also have "\<dots> = 2 powi (binade q) / 2 ^ 53"
    by simp
  also have "\<dots> \<le> q / 2 ^ 53"
    using bb qpos by (simp add: divide_right_mono)
  finally have "(2::rat) powi (binade q - 53) \<le> q / 2 ^ 53" .
  with rounded_error[OF q0] e have err: "\<bar>nearest_b64 q - q\<bar> \<le> q / 2 ^ 53" by simp
  have "q / 2 ^ 53 \<le> q" using qpos by (simp add: divide_le_eq)
  with err have "\<bar>nearest_b64 q\<bar> \<le> 2 * q" by linarith
  also have "\<dots> < 2 * 2 ^ 1023" using assms(2) by simp
  finally have "\<bar>nearest_b64 q\<bar> < 2 ^ 1024" by simp
  then have "round_b64 q = Finite (nearest_b64 q)"
    using q0 by (simp add: round_b64_rounded)
  with err rounded_nonneg[OF qpos] show ?thesis by blast
qed

lemma binade_upper:
  assumes "q \<noteq> 0" "\<bar>q\<bar> < 2 powi k"
  shows "binade q < k"
proof (rule ccontr)
  assume "\<not> binade q < k"
  then have "(2::rat) powi k \<le> 2 powi (binade q)"
    by (intro power_int_increasing) simp_all
  with binade_bounds[OF assms(1)] assms(2) show False by linarith
qed

lemma binade_lower:
  assumes "q \<noteq> 0" "2 powi k \<le> \<bar>q\<bar>"
  shows "k \<le> binade q"
proof (rule ccontr)
  assume "\<not> k \<le> binade q"
  then have "(2::rat) powi (binade q + 1) \<le> 2 powi k"
    by (intro power_int_increasing) simp_all
  with binade_bounds[OF assms(1)] assms(2) show False by linarith
qed

text \<open>Below 2^1023 in absolute value nothing rounds to an infinity.\<close>
lemma round_b64_finite:
  assumes "\<bar>q\<bar> < 2 ^ 1023"
  shows "round_b64 q = Finite (if q = 0 then 0 else nearest_b64 q)"
proof (cases "q = 0")
  case True
  then show ?thesis by (simp add: round_b64_def)
next
  case False
  have "\<bar>q\<bar> < 2 powi 1023" using assms by simp
  from binade_upper[OF False this] have "max (binade q) (- 1022) - 53 \<le> 1023"
    by simp
  then have "(2::rat) powi (max (binade q) (- 1022) - 53) \<le> 2 powi 1023"
    by (intro power_int_increasing) simp_all
  with rounded_error[OF False] have "\<bar>nearest_b64 q - q\<bar> \<le> 2 ^ 1023"
    by simp
  with assms have "\<bar>nearest_b64 q\<bar> < 2 ^ 1023 + 2 ^ 1023" by linarith
  then have "\<bar>nearest_b64 q\<bar> < 2 ^ 1024" by simp
  then show ?thesis using False by (simp add: round_b64_rounded)
qed

text \<open>An integer below 2^53 in absolute value is a binary64 number.\<close>
lemma round_b64_of_int:
  assumes "\<bar>n\<bar> < 2 ^ 53"
  shows "round_b64 (of_int n) = Finite (of_int n)"
proof (cases "n = 0")
  case True
  then show ?thesis by (simp add: round_b64_def)
next
  case False
  define q :: rat where "q = of_int n"
  have q0: "q \<noteq> 0" using False by (simp add: q_def)
  have absq: "\<bar>q\<bar> = of_int \<bar>n\<bar>" by (simp add: q_def)
  have "\<bar>q\<bar> < 2 powi 53"
    unfolding absq using assms by (metis of_int_less_iff of_int_numeral of_int_power power_int_numeral)
  from binade_upper[OF q0 this] have up: "binade q \<le> 52" by simp
  have "1 \<le> \<bar>n\<bar>" using False by simp
  then have "(1::rat) \<le> \<bar>q\<bar>" unfolding absq by (metis of_int_le_iff of_int_1)
  then have "(2::rat) powi 0 \<le> \<bar>q\<bar>" by simp
  from binade_lower[OF q0 this] have lo: "0 \<le> binade q" .
  define e where "e = binade q"
  have e: "max (binade q) (- 1022) = e" using lo by (simp add: e_def)
  have qo: "quotient_of q = (n, 1)" by (simp add: q_def)
  have rhe: "round_half_even N 1 = N" for N
    by (simp add: round_half_even_def)
  have "nearest_b64 q = of_int (n * 2 ^ nat (52 - e)) * 2 powi (e - 52)"
    using up by (simp add: nearest_b64_def e qo rhe Let_def e_def)
  also have "(of_int (n * 2 ^ nat (52 - e)) :: rat) = of_int n * 2 powi (52 - e)"
    using up by (simp add: power_int_def e_def)
  also have "of_int n * 2 powi (52 - e) * 2 powi (e - 52) = (of_int n :: rat)"
    by (simp add: mult.assoc power_int_add[symmetric])
  finally have nq: "nearest_b64 q = q" by (simp add: q_def)
  have "\<bar>q\<bar> < 2 ^ 1023"
  proof -
    have "\<bar>q\<bar> < 2 ^ 53" using \<open>\<bar>q\<bar> < 2 powi 53\<close> by simp
    also have "(2::rat) ^ 53 \<le> 2 ^ 1023" by (intro power_increasing) simp_all
    finally show ?thesis .
  qed
  from round_b64_finite[OF this] q0 nq show ?thesis by (simp add: q_def)
qed

lemma float_of_int_exact:
  "\<bar>n\<bar> < 2 ^ 53 \<Longrightarrow> float_of_int n = Inr (Finite (of_int n))"
  by (simp add: float_of_int_def round_b64_of_int)

section \<open>Facts about the example data\<close>

lemma example_files_simps:
  "example_files [''frames'', ''a.png''] = Some (example_frame 4 2 10)"
  "example_files [''frames'', ''b.png''] = Some (example_frame 2 2 20)"
  "example_files [''frames'', ''c.png''] = Some (example_frame 1920 1080 30)"
  "example_files [''tiny.png''] = Some (example_frame 1 1 40)"
  by (simp_all add: example_files_def)

lemma example_frame_simps [simp]:
  "mode (example_frame w h k) = RGB"
  "width (example_frame w h k) = w"
  "height (example_frame w h k) = h"
  "pixel_at (example_frame w h k) x y = [k, nat x mod 256, nat y mod 256]"
  by (simp_all add: example_frame_def)

lemma example_pil_simps [simp]:
  "png_modes example_pil RGB" "png_modes example_pil RGBA"
  "convert_pixels example_pil im m x y = take (bands m) (pixel_at im x y @ [255])"
  by (simp_all add: example_pil_def)

section \<open>The round trip of composing and slicing\<close>

text \<open>
  C1. For \<open>cols, rows \<ge> 1\<close>, a cell size \<open>s \<ge> 1\<close> and \<open>cols * rows\<close> frames that
  all open, \<open>compose_grid\<close> returns a sheet, and slicing a saved copy of that sheet
  with the same shape returns \<open>cols * rows\<close> paths in row-major order: the file at index
  \<open>i\<close> is the crop of the region where frame \<open>i\<close> was pasted, of size \<open>s \<times> s\<close>, and
  its pixels are those of frame \<open>i\<close> resized to \<open>s \<times> s\<close> in the mode of the sheet.
\<close>

theorem compose_slice_round_trip:
  assumes "1 \<le> cols" "1 \<le> rows" "1 \<le> s" "int (length frames) = cols * rows"
    and "\<forall>p\<in>set frames. files p \<noteq> None" "png_modes K RGBA"
  shows "\<exists>grid. compose_grid K files frames cols rows s = Inr grid \<and>
     (\<forall>files' image_path output_dir. files' image_path = Some grid \<longrightarrow>
        (\<exists>paths files''.
            slice_grid K files' image_path cols rows output_dir = (Inr paths, files'')
          \<and> length paths = length frames
          \<and> (\<forall>i<length frames. \<exists>frame frame' cell.
                image_open files (frames ! i) = Inr frame
              \<and> resize K frame (s, s) = Inr frame'
              \<and> image_open files'' (paths ! i) = Inr cell
              \<and> crop grid (int i mod cols * s, int i div cols * s,
                           int i mod cols * s + s, int i div cols * s + s) = Inr cell
              \<and> int (width cell) = s \<and> int (height cell) = s
              \<and> (\<forall>x y. 0 \<le> x \<and> x < s \<and> 0 \<le> y \<and> y < s \<longrightarrow>
                     pixel_at cell x y = pixel_at (convert K frame' RGBA) x y))))"
proof -
  define grid0 where
    "grid0 = \<lparr>mode = RGBA, width = nat (cols * s), height = nat (rows * s),
              pixel_at = (\<lambda>x y. [0, 0, 0, 0])\<rparr>"
  have nn: "0 \<le> cols * s" "0 \<le> rows * s"
    using assms(1,2,3) by simp_all
  have new: "image_new RGBA (cols * s, rows * s) [0, 0, 0, 0] = Inr grid0"
    using nn by (simp add: image_new_def grid0_def)
  obtain grid where loop: "compose_loop K files cols rows s 0 frames grid0 = Inr grid"
    using compose_loop_returns[OF assms(3,5)] by blast
  have cg: "compose_grid K files frames cols rows s = Inr grid"
    using new loop by (simp add: compose_grid_def Let_def)
  have dims: "int (width grid) = cols * s" "int (height grid) = rows * s" "mode grid = RGBA"
    using compose_loop_dims[OF loop] nn by (simp_all add: grid0_def)
  have cw: "int (width grid) div cols = s" and ch: "int (height grid) div rows = s"
    using dims assms(1,2) by simp_all
  have sliced: "\<exists>paths files''.
            slice_grid K files' image_path cols rows output_dir = (Inr paths, files'')
          \<and> length paths = length frames
          \<and> (\<forall>i<length frames. \<exists>frame frame' cell.
                image_open files (frames ! i) = Inr frame
              \<and> resize K frame (s, s) = Inr frame'
              \<and> image_open files'' (paths ! i) = Inr cell
              \<and> crop grid (int i mod cols * s, int i div cols * s,
                           int i mod cols * s + s, int i div cols * s + s) = Inr cell
              \<and> int (width cell) = s \<and> int (height cell) = s
              \<and> (\<forall>x y. 0 \<le> x \<and> x < s \<and> 0 \<le> y \<and> y < s \<longrightarrow>
                     pixel_at cell x y = pixel_at (convert K frame' RGBA) x y))"
    if saved: "files' image_path = Some grid" for files' image_path output_dir
  proof -
    have le: "cols \<le> int (width grid)" "rows \<le> int (height grid)"
      using dims assms(1,2,3) by (simp_all add: mult_le_cancel_left1 mult.commute)
    have pm: "png_modes K (mode grid)"
      using assms(6) dims(3) by simp
    from slice_grid_ok[where files = files' and image_path = image_path and img = grid
        and K = K and output_dir = output_dir, OF assms(1,2) saved le pm]
    obtain paths files'' where
      sg: "slice_grid K files' image_path cols rows output_dir = (Inr paths, files'')"
      and len: "int (length paths) = cols * rows"
      and cells: "\<forall>i<length paths. image_open files'' (paths ! i)
                 = crop grid (cell_box s s (i div nat cols) (i mod nat cols))"
      unfolding cw ch by auto
    have len': "length paths = length frames"
      using len assms(4) by simp
    have each: "\<exists>frame frame' cell.
                image_open files (frames ! i) = Inr frame
              \<and> resize K frame (s, s) = Inr frame'
              \<and> image_open files'' (paths ! i) = Inr cell
              \<and> crop grid (int i mod cols * s, int i div cols * s,
                           int i mod cols * s + s, int i div cols * s + s) = Inr cell
              \<and> int (width cell) = s \<and> int (height cell) = s
              \<and> (\<forall>x y. 0 \<le> x \<and> x < s \<and> 0 \<le> y \<and> y < s \<longrightarrow>
                     pixel_at cell x y = pixel_at (convert K frame' RGBA) x y)"
      if i: "i < length frames" for i
    proof -
      have ic: "int (i mod nat cols) = int i mod cols" "int (i div nat cols) = int i div cols"
        using assms(1) by (simp_all add: zmod_int zdiv_int)
      have box: "cell_box s s (i div nat cols) (i mod nat cols)
           = (int i mod cols * s, int i div cols * s, int i mod cols * s + s, int i div cols * s + s)"
        by (simp add: cell_box_def ic)
      obtain cell where cell: "crop grid (cell_box s s (i div nat cols) (i mod nat cols)) = Inr cell"
         "int (width cell) = s" "int (height cell) = s"
        using crop_cell[of s s grid] assms(3) by force
      have opened: "image_open files'' (paths ! i) = Inr cell"
        using cells i len' cell(1) by simp
      have ilt: "int i < cols * rows" using i assms(4) by simp
      have cb: "0 \<le> int i mod cols" "int i mod cols < cols" "0 \<le> int i div cols" "int i div cols < rows"
      proof -
        show "0 \<le> int i mod cols" "int i mod cols < cols" using assms(1) by simp_all
        show "0 \<le> int i div cols" using assms(1) by (simp add: pos_imp_zdiv_nonneg_iff)
        show "int i div cols < rows"
        proof (rule ccontr)
          assume "\<not> int i div cols < rows"
          then have "rows * cols \<le> int i div cols * cols"
            using assms(1) by (simp add: mult_right_mono)
          also have "\<dots> \<le> int i"
            using assms(1) by (metis div_mult_mod_eq le_add_same_cancel1 pos_mod_sign zero_less_one_class.zero_less_one order_less_le_trans)
          finally show False using ilt by (simp add: mult.commute)
        qed
      qed
      have px: "pixel_at cell x y = pixel_at grid (int i mod cols * s + x) (int i div cols * s + y)"
        if xy: "0 \<le> x" "x < s" "0 \<le> y" "y < s" for x y
      proof -
        have "int i mod cols * s + x < cols * s"
        proof -
          have "int i mod cols * s + x < (int i mod cols + 1) * s" using xy by (simp add: algebra_simps)
          also have "\<dots> \<le> cols * s" using cb assms(3) by (intro mult_right_mono) simp_all
          finally show ?thesis .
        qed
        moreover have "int i div cols * s + y < rows * s"
        proof -
          have "int i div cols * s + y < (int i div cols + 1) * s" using xy by (simp add: algebra_simps)
          also have "\<dots> \<le> rows * s" using cb assms(3) by (intro mult_right_mono) simp_all
          finally show ?thesis .
        qed
        moreover have "0 \<le> int i mod cols * s + x" "0 \<le> int i div cols * s + y"
          using cb xy assms(3) by simp_all
        ultimately have "in_image grid (int i mod cols * s + x) (int i div cols * s + y)"
          using dims by (simp add: in_image_def)
        then show ?thesis
          using cell(1) unfolding box by (auto simp: crop_def split: if_splits)
      qed
      have "\<exists>frame frame'. image_open files (frames ! i) = Inr frame \<and> resize K frame (s, s) = Inr frame'
           \<and> (\<forall>x y. 0 \<le> x \<and> x < s \<and> 0 \<le> y \<and> y < s \<longrightarrow>
                 pixel_at grid ((0 + int i) mod cols * s + x) ((0 + int i) div cols * s + y)
               = pixel_at (paste_source K grid0 frame') x y)"
      proof -
        have "files (frames ! i) \<noteq> None"
          using assms(5) i by simp
        then obtain frame where op: "image_open files (frames ! i) = Inr frame"
          by (auto simp: image_open_def)
        obtain frame' where fr: "resize K frame (s, s) = Inr frame'"
          using assms(3) by (cases "int (width frame) = s \<and> int (height frame) = s") (auto simp: resize_def)
        have "pixel_at grid ((0 + int i) mod cols * s + x) ((0 + int i) div cols * s + y)
               = pixel_at (paste_source K grid0 frame') x y"
          if "0 \<le> x" "x < s" "0 \<le> y" "y < s" for x y
          using compose_loop_cell[OF loop assms(1,3) _ _ i that] assms(4) op fr by auto
        with op fr show ?thesis by blast
      qed
      then obtain frame frame' where
        op: "image_open files (frames ! i) = Inr frame" and fr: "resize K frame (s, s) = Inr frame'"
        and content: "\<forall>x y. 0 \<le> x \<and> x < s \<and> 0 \<le> y \<and> y < s \<longrightarrow>
                 pixel_at grid (int i mod cols * s + x) (int i div cols * s + y)
               = pixel_at (convert K frame' RGBA) x y"
        by (auto simp: paste_source_def grid0_def)
      show ?thesis
        using op fr opened cell px content unfolding box by auto
    qed
    show ?thesis using sg len' each by blast
  qed
  show ?thesis using cg sliced by blast
qed

theorem compose_slice_round_trip_witness:
  "\<exists>grid paths files'' cell.
      compose_grid example_pil example_files
        [[''frames'', ''a.png''], [''frames'', ''b.png'']] 2 1 2 = Inr grid
    \<and> slice_grid example_pil (example_files([''sheet.png''] \<mapsto> grid)) [''sheet.png''] 2 1 [''out'']
        = (Inr paths, files'')
    \<and> length paths = 2
    \<and> image_open files'' (paths ! 1) = Inr cell
    \<and> image_size cell = (2, 2)
    \<and> pixel_at cell 1 0 = [20, 1, 0, 255]"
proof -
  let ?frames = "[[''frames'', ''a.png''], [''frames'', ''b.png'']]"
  have "\<forall>p\<in>set ?frames. example_files p \<noteq> None"
    by (simp add: example_files_simps)
  from compose_slice_round_trip[of 2 1 2 ?frames example_files example_pil, OF _ _ _ _ this]
  obtain grid where g: "compose_grid example_pil example_files ?frames 2 1 2 = Inr grid"
    and sl: "\<And>files' image_path output_dir. files' image_path = Some grid \<Longrightarrow>
        (\<exists>paths files''.
            slice_grid example_pil files' image_path 2 1 output_dir = (Inr paths, files'')
          \<and> length paths = length ?frames
          \<and> (\<forall>i<length ?frames. \<exists>frame frame' cell.
                image_open example_files (?frames ! i) = Inr frame
              \<and> resize example_pil frame (2, 2) = Inr frame'
              \<and> image_open files'' (paths ! i) = Inr cell
              \<and> crop grid (int i mod 2 * 2, int i div 2 * 2,
                           int i mod 2 * 2 + 2, int i div 2 * 2 + 2) = Inr cell
              \<and> int (width cell) = 2 \<and> int (height cell) = 2
              \<and> (\<forall>x y. 0 \<le> x \<and> x < 2 \<and> 0 \<le> y \<and> y < 2 \<longrightarrow>
                     pixel_at cell x y = pixel_at (convert example_pil frame' RGBA) x y)))"
    by auto
  have sv: "(example_files([''sheet.png''] \<mapsto> grid)) [''sheet.png''] = Some grid"
    by simp
  from sl[of "example_files([''sheet.png''] \<mapsto> grid)" "[''sheet.png'']" "[''out'']", OF sv]
  obtain paths files'' where
    s1: "slice_grid example_pil (example_files([''sheet.png''] \<mapsto> grid)) [''sheet.png''] 2 1 [''out'']
           = (Inr paths, files'')"
    and s2: "length paths = length ?frames"
    and s3: "\<forall>i<length ?frames. \<exists>frame frame' cell.
                image_open example_files (?frames ! i) = Inr frame
              \<and> resize example_pil frame (2, 2) = Inr frame'
              \<and> image_open files'' (paths ! i) = Inr cell
              \<and> crop grid (int i mod 2 * 2, int i div 2 * 2,
                           int i mod 2 * 2 + 2, int i div 2 * 2 + 2) = Inr cell
              \<and> int (width cell) = 2 \<and> int (height cell) = 2
              \<and> (\<forall>x y. 0 \<le> x \<and> x < 2 \<and> 0 \<le> y \<and> y < 2 \<longrightarrow>
                     pixel_at cell x y = pixel_at (convert example_pil frame' RGBA) x y)"
    by blast
  have "1 < length ?frames" by simp
  from s3[rule_format, OF this] obtain frame frame' cell where
    c: "image_open example_files (?frames ! 1) = Inr frame"
      "resize example_pil frame (2, 2) = Inr frame'"
      "image_open files'' (paths ! 1) = Inr cell"
      "int (width cell) = 2" "int (height cell) = 2"
      "\<forall>x y. 0 \<le> x \<and> x < 2 \<and> 0 \<le> y \<and> y < 2 \<longrightarrow>
                     pixel_at cell x y = pixel_at (convert example_pil frame' RGBA) x y"
    by blast
  from c(1) have "frame = example_frame 2 2 20"
    by (simp add: image_open_def example_files_simps)
  with c(2) have "frame' = example_frame 2 2 20"
    by (simp add: resize_def)
  with c(6) have "pixel_at cell 1 0 = [20, 1, 0, 255]"
    by (simp add: convert_def)
  with g s1 s2 c(3,4,5) show ?thesis
    by (simp add: image_size_def)
qed

section \<open>The size of the composite\<close>

text \<open>
  C2, as amended. The composite that \<open>create_reference_grid\<close> (reference mode)
  returns is a square of side \<open>c * max cols rows\<close>, where \<open>c\<close> is the cell size
  \<open>resolution div max cols rows\<close>. The composite that \<open>compose_grid\<close> (sheet mode)
  returns has width \<open>cols * sprite_size\<close> and height \<open>rows * sprite_size\<close>: it is
  square only for a square grid.
\<close>

theorem composite_size:
  "(create_reference_grid K files frames cols rows resolution = Inr g \<longrightarrow>
      (\<exists>c. calculate_sprite_size resolution cols rows = Inr c
         \<and> int (width g) = c * max cols rows \<and> int (height g) = c * max cols rows))
   \<and> (compose_grid K files frames cols rows s = Inr g' \<longrightarrow>
        int (width g') = cols * s \<and> int (height g') = rows * s)"
proof (rule conjI; rule impI)
  assume r: "create_reference_grid K files frames cols rows resolution = Inr g"
  define c where "c = resolution div max cols rows"
  from r have m: "max cols rows \<noteq> 0" and nn: "0 \<le> c * max cols rows"
    by (auto simp: create_reference_grid_def image_new_def Let_def c_def split: if_splits)
  from r m nn obtain grid where
    "reference_loop K files cols rows c 0 frames grid = Inr g"
    "width grid = nat (c * max cols rows)" "height grid = nat (c * max cols rows)"
    by (auto simp: create_reference_grid_def image_new_def Let_def c_def split: if_splits)
  with reference_loop_dims[of K files cols rows c 0 frames grid g] nn
  have "int (width g) = c * max cols rows \<and> int (height g) = c * max cols rows"
    by simp
  moreover have "calculate_sprite_size resolution cols rows = Inr c"
    using m by (simp add: calculate_sprite_size_def c_def)
  ultimately show "\<exists>c. calculate_sprite_size resolution cols rows = Inr c
         \<and> int (width g) = c * max cols rows \<and> int (height g) = c * max cols rows"
    by blast
next
  assume r: "compose_grid K files frames cols rows s = Inr g'"
  then have nn: "0 \<le> cols * s" "0 \<le> rows * s"
    by (auto simp: compose_grid_def image_new_def Let_def split: if_splits)
  from r nn obtain grid where
    "compose_loop K files cols rows s 0 frames grid = Inr g'"
    "width grid = nat (cols * s)" "height grid = nat (rows * s)"
    by (auto simp: compose_grid_def image_new_def Let_def split: if_splits)
  with compose_loop_dims[of K files cols rows s 0 frames grid g'] nn
  show "int (width g') = cols * s \<and> int (height g') = rows * s"
    by simp
qed

theorem composite_size_witness:
  "\<exists>g g'.
      create_reference_grid example_pil example_files
        [[''frames'', ''a.png''], [''frames'', ''b.png'']] 2 1 5 = Inr g
    \<and> compose_grid example_pil example_files
        [[''frames'', ''a.png''], [''frames'', ''b.png'']] 2 1 2 = Inr g'
    \<and> image_size g = (4, 4) \<and> image_size g' = (4, 2)"
proof -
  let ?frames = "[[''frames'', ''a.png''], [''frames'', ''b.png'']]"
  have "\<not> isl (create_reference_grid example_pil example_files ?frames 2 1 5)"
    by code_simp
  then obtain g where g: "create_reference_grid example_pil example_files ?frames 2 1 5 = Inr g"
    by (cases "create_reference_grid example_pil example_files ?frames 2 1 5") auto
  have "\<not> isl (compose_grid example_pil example_files ?frames 2 1 2)"
    by code_simp
  then obtain g' where g': "compose_grid example_pil example_files ?frames 2 1 2 = Inr g'"
    by (cases "compose_grid example_pil example_files ?frames 2 1 2") auto
  from composite_size[of example_pil example_files ?frames 2 1 5 g 2 g'] g g'
  show ?thesis
    by (auto simp: calculate_sprite_size_def image_size_def)
qed

text \<open>
  C2 as stated fails in sheet mode: two frames in a grid of 2 columns and 1 row with
  cells of side 2 give a sheet of 4 by 2 pixels.
\<close>

theorem sheet_composite_not_square:
  "map_sum id image_size
     (compose_grid example_pil example_files [[''frames'', ''a.png''], [''frames'', ''b.png'']] 2 1 2)
   = Inr (4, 2)"
  by code_simp

section \<open>No frames\<close>

text \<open>
  C4. With no frames \<open>create_reference_grid\<close> raises \<open>ValueError\<close>, while
  \<open>compose_grid\<close> returns a transparent sheet: for 2 by 2 cells of side 512 a sheet
  of 1024 by 1024 pixels.
\<close>

theorem compose_empty_frames:
  "create_reference_grid K files [] cols rows resolution = Inl ValueError
   \<and> compose_grid K files [] 2 2 512
       = Inr \<lparr>mode = RGBA, width = 1024, height = 1024, pixel_at = (\<lambda>x y. [0, 0, 0, 0])\<rparr>"
  by (simp add: create_reference_grid_def compose_grid_def image_new_def)

section \<open>More frames than cells\<close>

text \<open>
  C5. For \<open>cols, rows \<ge> 1\<close> and more than \<open>cols * rows\<close> frames, both
  \<open>compose_grid\<close> and \<open>create_reference_grid\<close> return what they return for the first
  \<open>cols * rows\<close> frames alone (the same composite, or the same exception).
\<close>

theorem compose_ignores_excess_frames:
  assumes "1 \<le> cols" "1 \<le> rows" "int (length frames) > cols * rows"
  shows "compose_grid K files frames cols rows s
           = compose_grid K files (take (nat (cols * rows)) frames) cols rows s
       \<and> create_reference_grid K files frames cols rows resolution
           = create_reference_grid K files (take (nat (cols * rows)) frames) cols rows resolution"
proof -
  have pos: "0 < cols * rows" using assms(1,2) by simp
  have ne: "frames \<noteq> []" using assms(3) pos by auto
  have ne': "take (nat (cols * rows)) frames \<noteq> []" using ne pos by simp
  have a: "compose_grid K files frames cols rows s
           = compose_grid K files (take (nat (cols * rows)) frames) cols rows s"
    using compose_loop_take[of 0 K files cols rows s frames]
    by (simp add: compose_grid_def Let_def split: sum.splits)
  have b: "create_reference_grid K files frames cols rows resolution
           = create_reference_grid K files (take (nat (cols * rows)) frames) cols rows resolution"
    using compose_loop_take reference_loop_take[of 0 K files cols rows _ frames] ne ne'
    by (simp add: create_reference_grid_def Let_def split: sum.splits)
  from a b show ?thesis by simp
qed

theorem compose_ignores_excess_frames_witness:
  "compose_grid example_pil example_files
      [[''frames'', ''a.png''], [''frames'', ''b.png''], [''frames'', ''c.png'']] 2 1 2
    = compose_grid example_pil example_files [[''frames'', ''a.png''], [''frames'', ''b.png'']] 2 1 2
   \<and> create_reference_grid example_pil example_files
      [[''frames'', ''a.png''], [''frames'', ''b.png''], [''frames'', ''c.png'']] 2 1 4
    = create_reference_grid example_pil example_files
      [[''frames'', ''a.png''], [''frames'', ''b.png'']] 2 1 4"
  using compose_ignores_excess_frames[of 2 1 "[[''frames'', ''a.png''], [''frames'', ''b.png''], [''frames'', ''c.png'']]"
      example_pil example_files 2 4]
  by simp

section \<open>The cell size and invalid grids\<close>

text \<open>
  C7, as amended. \<open>calculate_sprite_size\<close> does not validate the grid: it raises only
  \<open>ZeroDivisionError\<close>, and only when \<open>max cols rows = 0\<close>; in every other case,
  so for all \<open>cols, rows \<ge> 1\<close> and also for a resolution that \<open>max cols rows\<close> does
  not divide, it returns \<open>resolution div max cols rows\<close>.
\<close>

theorem calculate_sprite_size_no_validation: "(calculate_sprite_size resolution cols rows = Inl e \<longleftrightarrow> e = ZeroDivisionError \<and> max cols rows = 0)
  \<and> (max cols rows \<noteq> 0 \<longrightarrow> calculate_sprite_size resolution cols rows = Inr (resolution div max cols rows))"
  by (auto simp: calculate_sprite_size_def)

theorem calculate_sprite_size_no_validation_witness:
  "calculate_sprite_size 1000 3 2 = Inr 333 \<and> calculate_sprite_size 1024 0 (- 4) = Inl ZeroDivisionError"
  using calculate_sprite_size_no_validation[of 1000 3 2 ZeroDivisionError]
    calculate_sprite_size_no_validation[of 1024 0 "- 4" ZeroDivisionError]
  by simp

text \<open>C7 as stated fails: with \<open>cols = 0\<close> and \<open>rows = 4\<close> the function returns 256.\<close>

theorem calculate_sprite_size_zero_cols: "(0::int) < 1 \<and> calculate_sprite_size 1024 0 4 = Inr 256"
  by (simp add: calculate_sprite_size_def)

section \<open>The centre crop\<close>

text \<open>
  C9. For an image of positive width \<open>w\<close> and height \<open>h\<close>, \<open>center_crop_square\<close>
  returns the crop of the box with the offsets \<open>(w - side) div 2\<close> and
  \<open>(h - side) div 2\<close> and the side \<open>min w h\<close>: a square image of that side whose
  pixel \<open>(x, y)\<close> is the pixel \<open>((w - side) div 2 + x, (h - side) div 2 + y)\<close> of
  the image. For 1920 by 1080 the result is 1080 by 1080 at the offsets 420 and 0.
\<close>

theorem center_crop_square_geometry:
  assumes "0 < width im" "0 < height im"
    and "w = int (width im)" "h = int (height im)" "side = min w h"
  shows "\<exists>sq. center_crop_square im = Inr sq
     \<and> crop im ((w - side) div 2, (h - side) div 2,
                 (w - side) div 2 + side, (h - side) div 2 + side) = Inr sq
     \<and> mode sq = mode im
     \<and> int (width sq) = side \<and> int (height sq) = side
     \<and> (\<forall>x y. 0 \<le> x \<and> x < side \<and> 0 \<le> y \<and> y < side \<longrightarrow>
           pixel_at sq x y = pixel_at im ((w - side) div 2 + x) ((h - side) div 2 + y))"
proof -
  have side: "0 \<le> side" "side \<le> w" "side \<le> h"
    using assms by simp_all
  have off: "0 \<le> (w - side) div 2" "(w - side) div 2 + side \<le> w"
            "0 \<le> (h - side) div 2" "(h - side) div 2 + side \<le> h"
    using side by simp_all
  define sq where "sq = \<lparr>mode = mode im, width = nat side, height = nat side,
      pixel_at = (\<lambda>x y. if in_image im ((w - side) div 2 + x) ((h - side) div 2 + y)
                          then pixel_at im ((w - side) div 2 + x) ((h - side) div 2 + y)
                          else replicate (bands (mode im)) 0)\<rparr>"
  have cr: "crop im ((w - side) div 2, (h - side) div 2,
                 (w - side) div 2 + side, (h - side) div 2 + side) = Inr sq"
    using side by (simp add: crop_def sq_def)
  have ccs: "center_crop_square im = Inr sq"
    using cr assms(3,4,5) by (simp add: center_crop_square_def Let_def)
  have px: "pixel_at sq x y = pixel_at im ((w - side) div 2 + x) ((h - side) div 2 + y)"
    if "0 \<le> x" "x < side" "0 \<le> y" "y < side" for x y
  proof -
    have "in_image im ((w - side) div 2 + x) ((h - side) div 2 + y)"
      using that off assms(3,4) by (simp add: in_image_def)
    then show ?thesis by (simp add: sq_def)
  qed
  have "mode sq = mode im" "int (width sq) = side" "int (height sq) = side"
    using side by (simp_all add: sq_def)
  with ccs cr px show ?thesis by blast
qed

theorem center_crop_square_geometry_witness:
  "\<exists>sq. center_crop_square (example_frame 1920 1080 30) = Inr sq
     \<and> crop (example_frame 1920 1080 30) (420, 0, 1500, 1080) = Inr sq
     \<and> image_size sq = (1080, 1080)
     \<and> pixel_at sq 0 0 = pixel_at (example_frame 1920 1080 30) 420 0
     \<and> pixel_at sq 1079 1079 = pixel_at (example_frame 1920 1080 30) 1499 1079"
proof -
  from center_crop_square_geometry[of "example_frame 1920 1080 30" 1920 1080 1080]
  obtain sq where sq: "center_crop_square (example_frame 1920 1080 30) = Inr sq"
    "crop (example_frame 1920 1080 30) (420, 0, 1500, 1080) = Inr sq"
    "int (width sq) = 1080" "int (height sq) = 1080"
    "\<forall>x y. 0 \<le> x \<and> x < 1080 \<and> 0 \<le> y \<and> y < 1080 \<longrightarrow>
        pixel_at sq x y = pixel_at (example_frame 1920 1080 30) (420 + x) (0 + y)"
    by auto
  from sq(5) have "pixel_at sq 0 0 = pixel_at (example_frame 1920 1080 30) 420 0"
    "pixel_at sq 1079 1079 = pixel_at (example_frame 1920 1080 30) 1499 1079"
    by simp_all
  with sq(1,2,3,4) show ?thesis
    by (auto simp: image_size_def)
qed

section \<open>The cells of a sliced sheet\<close>

text \<open>
  C10, as amended. For \<open>cols, rows \<ge> 1\<close> and a sheet of width at least \<open>cols\<close> and
  height at least \<open>rows\<close>, in a mode that the PNG encoder writes, \<open>slice_grid\<close>
  returns \<open>cols * rows\<close> paths in row-major order, and the file at each of them is
  the crop of its cell, of width \<open>width div cols\<close> and height \<open>height div rows\<close>.
\<close>

theorem slice_grid_cells:
  assumes "1 \<le> cols" "1 \<le> rows" "files image_path = Some img"
    and "cols \<le> int (width img)" "rows \<le> int (height img)" "png_modes K (mode img)"
  shows "\<exists>paths files'.
           slice_grid K files image_path cols rows output_dir = (Inr paths, files')
         \<and> int (length paths) = cols * rows
         \<and> (\<forall>i<length paths. \<exists>cell.
               paths ! i = output_dir @ [frame_name (i div nat cols) (i mod nat cols)]
             \<and> image_open files' (paths ! i) = Inr cell
             \<and> crop img (cell_box (int (width img) div cols) (int (height img) div rows)
                           (i div nat cols) (i mod nat cols)) = Inr cell
             \<and> int (width cell) = int (width img) div cols
             \<and> int (height cell) = int (height img) div rows)"
proof -
  have cw: "0 < int (width img) div cols"
    using assms(1,4) by (simp add: pos_imp_zdiv_pos_iff)
  have ch: "0 < int (height img) div rows"
    using assms(2,5) by (simp add: pos_imp_zdiv_pos_iff)
  from slice_grid_ok[where files = files and image_path = image_path and img = img
      and K = K and output_dir = output_dir, OF assms]
  obtain paths files' where
    sg: "slice_grid K files image_path cols rows output_dir = (Inr paths, files')"
    and len: "int (length paths) = cols * rows"
    and cells: "\<forall>i<length paths.
               paths ! i = output_dir @ [frame_name (i div nat cols) (i mod nat cols)]
             \<and> image_open files' (paths ! i)
                 = crop img (cell_box (int (width img) div cols) (int (height img) div rows)
                               (i div nat cols) (i mod nat cols))"
    by blast
  have "\<exists>cell.
               paths ! i = output_dir @ [frame_name (i div nat cols) (i mod nat cols)]
             \<and> image_open files' (paths ! i) = Inr cell
             \<and> crop img (cell_box (int (width img) div cols) (int (height img) div rows)
                           (i div nat cols) (i mod nat cols)) = Inr cell
             \<and> int (width cell) = int (width img) div cols
             \<and> int (height cell) = int (height img) div rows"
    if "i < length paths" for i
    using cells that crop_cell[OF cw ch, of img "i div nat cols" "i mod nat cols"] by auto
  with sg len show ?thesis by blast
qed

theorem slice_grid_cells_witness:
  "\<exists>paths files' cell.
     slice_grid example_pil example_files [''frames'', ''a.png''] 2 2 [''out''] = (Inr paths, files')
   \<and> length paths = 4
   \<and> paths ! 3 = [''out'', ''frame_01_01.png'']
   \<and> image_open files' (paths ! 3) = Inr cell
   \<and> image_size cell = (2, 1)"
proof -
  have "\<exists>paths files'.
           slice_grid example_pil example_files [''frames'', ''a.png''] 2 2 [''out''] = (Inr paths, files')
         \<and> int (length paths) = 2 * 2
         \<and> (\<forall>i<length paths. \<exists>cell.
               paths ! i = [''out''] @ [frame_name (i div nat 2) (i mod nat 2)]
             \<and> image_open files' (paths ! i) = Inr cell
             \<and> crop (example_frame 4 2 10)
                  (cell_box (int (width (example_frame 4 2 10)) div 2)
                     (int (height (example_frame 4 2 10)) div 2) (i div nat 2) (i mod nat 2))
                 = Inr cell
             \<and> int (width cell) = int (width (example_frame 4 2 10)) div 2
             \<and> int (height cell) = int (height (example_frame 4 2 10)) div 2)"
    by (rule slice_grid_cells) (simp_all add: example_files_simps)
  then obtain paths files' where
    p: "slice_grid example_pil example_files [''frames'', ''a.png''] 2 2 [''out''] = (Inr paths, files')"
      "int (length paths) = 2 * 2"
      "\<forall>i<length paths. \<exists>cell.
               paths ! i = [''out''] @ [frame_name (i div nat 2) (i mod nat 2)]
             \<and> image_open files' (paths ! i) = Inr cell
             \<and> int (width cell) = int (width (example_frame 4 2 10)) div 2
             \<and> int (height cell) = int (height (example_frame 4 2 10)) div 2"
    by blast
  from p(2) have len: "length paths = 4" by simp
  have "3 < length paths" using len by simp
  from p(3)[rule_format, OF this] obtain cell where
    q1: "paths ! 3 = [''out''] @ [frame_name (3 div nat 2) (3 mod nat 2)]" and
    q2: "image_open files' (paths ! 3) = Inr cell" and
    q3: "int (width cell) = int (width (example_frame 4 2 10)) div 2"
        "int (height cell) = int (height (example_frame 4 2 10)) div 2"
    by blast
  have "frame_name 1 1 = ''frame_01_01.png''"
    by code_simp
  with q1 have r1: "paths ! 3 = [''out'', ''frame_01_01.png'']"
    by simp
  from q3 have r3: "image_size cell = (2, 1)"
    by (simp add: image_size_def)
  from p(1) len r1 q2 r3 show ?thesis
    by blast
qed

text \<open>
  C10 as stated fails for a sheet narrower than the number of columns: the cells have
  width zero, and saving the first of them raises.
\<close>

theorem slice_grid_degenerate_fails:
  "fst (slice_grid example_pil example_files [''tiny.png''] 2 1 [''out'']) = Inl SystemError"
  by code_simp

section \<open>The round trip from a frame index to a time and back\<close>

text \<open>
  C6, as amended. For every frame index \<open>0 \<le> f < 2^51\<close> and every frame rate
  between \<open>2^-900\<close> and \<open>2^900\<close>, \<open>frame_to_time\<close> returns a time,
  \<open>time_to_frame\<close> of that time returns a frame index, and this index is \<open>f\<close> or
  \<open>f - 1\<close>. At 29.97 frames per second the index 1000 comes back as 1000.
\<close>

theorem frame_time_round_trip:
  assumes "0 \<le> f" "f < 2 ^ 51" "1 / 2 ^ 900 \<le> r" "r \<le> 2 ^ 900"
  shows "\<exists>t g. frame_to_time f (Finite r) = Inr t \<and> time_to_frame t (Finite r) = Inr g
           \<and> (g = f \<or> g = f - 1)"
proof (cases "f = 0")
  case True
  have rpos: "0 < r"
  proof -
    have "(0::rat) < 1 / 2 ^ 900" by simp
    with assms(3) show ?thesis by linarith
  qed
  have "frame_to_time 0 (Finite r) = Inr (Finite 0)"
    using rpos by (simp add: frame_to_time_def float_of_int_def float_truediv_def round_b64_def)
  moreover have "time_to_frame (Finite 0) (Finite r) = Inr 0"
    by (simp add: time_to_frame_def float_mul_def round_b64_def py_int_def)
  ultimately show ?thesis using True by simp
next
  case False
  with assms(1) have f1: "1 \<le> f" by simp
  have rpos: "0 < r"
  proof -
    have "(0::rat) < 1 / 2 ^ 900" by simp
    with assms(3) show ?thesis by linarith
  qed
  define F :: rat where "F = of_int f"
  have F1: "1 \<le> F" unfolding F_def using f1 by simp
  have "f \<le> 2 ^ 51" using assms(2) by simp
  then have F51: "F \<le> 2 ^ 51"
    unfolding F_def by (metis of_int_le_iff of_int_numeral of_int_power)
  have "\<bar>f\<bar> < 2 ^ 53"
  proof -
    have "(2::int) ^ 51 \<le> 2 ^ 53" by (intro power_increasing) simp_all
    with assms(1,2) show ?thesis by simp
  qed
  then have conv: "float_of_int f = Inr (Finite F)"
    unfolding F_def by (rule float_of_int_exact)
  define q0 where "q0 = F / r"
  have q0_lo: "1 / 2 ^ 900 \<le> q0"
  proof -
    have "1 / 2 ^ 900 \<le> 1 / r" using assms(4) rpos by (simp add: frac_le)
    also have "\<dots> \<le> F / r" using F1 rpos by (simp add: divide_right_mono)
    finally show ?thesis by (simp add: q0_def)
  qed
  have q0_hi: "q0 \<le> 2 ^ 51 * 2 ^ 900"
  proof -
    have "F / r \<le> 2 ^ 51 / r" using F51 rpos by (simp add: divide_right_mono)
    also have "\<dots> \<le> 2 ^ 51 / (1 / 2 ^ 900)" using assms(3) by (intro divide_left_mono) simp_all
    finally show ?thesis by (simp add: q0_def)
  qed
  have n1: "(2::rat) powi (- 1022) \<le> q0"
  proof -
    have "(2::rat) powi (- 1022) \<le> 2 powi (- 900)" by (intro power_int_increasing) simp_all
    also have "\<dots> = 1 / 2 ^ 900" by (simp add: power_int_minus_divide)
    finally show ?thesis using q0_lo by linarith
  qed
  have n2: "q0 < 2 ^ 1023"
  proof -
    have "(2::rat) ^ 51 * 2 ^ 900 = 2 ^ 951" by (simp add: power_add[symmetric])
    also have "\<dots> < 2 ^ 1023" by (intro power_strict_increasing) simp_all
    finally show ?thesis using q0_hi by linarith
  qed
  from round_b64_normal[OF n1 n2] obtain q1 where
    q1: "round_b64 q0 = Finite q1" "\<bar>q1 - q0\<bar> \<le> q0 / 2 ^ 53"
    by blast
  have ftt: "frame_to_time f (Finite r) = Inr (Finite q1)"
    using conv rpos q1(1) by (simp add: frame_to_time_def float_truediv_def q0_def)
  define p where "p = q1 * r"
  have "p - F = (q1 - q0) * r" using rpos by (simp add: p_def q0_def algebra_simps)
  then have "\<bar>p - F\<bar> = \<bar>q1 - q0\<bar> * r" using rpos by (simp add: abs_mult)
  also have "\<dots> \<le> q0 / 2 ^ 53 * r" using q1(2) rpos by (simp add: mult_right_mono)
  also have "\<dots> = F / 2 ^ 53" using rpos by (simp add: q0_def)
  also have "\<dots> \<le> 2 ^ 51 / 2 ^ 53" using F51 by (simp add: divide_right_mono)
  also have "\<dots> = 1 / 4" by simp
  finally have pF: "\<bar>p - F\<bar> \<le> 1 / 4" .
  have p_lo: "3 / 4 \<le> p" using pF F1 by linarith
  have p_hi: "p \<le> 2 ^ 51 + 1 / 4" using pF F51 by linarith
  have m1: "(2::rat) powi (- 1022) \<le> p"
  proof -
    have "(2::rat) powi (- 1022) \<le> 2 powi (- 1)" by (intro power_int_increasing) simp_all
    also have "\<dots> = 1 / 2" by simp
    finally show ?thesis using p_lo by linarith
  qed
  have m2: "p < 2 ^ 1023"
  proof -
    have "p < 2 ^ 52" using p_hi by simp
    also have "(2::rat) ^ 52 \<le> 2 ^ 1023" by (intro power_increasing) simp_all
    finally show ?thesis .
  qed
  from round_b64_normal[OF m1 m2] obtain p1 where
    p1: "round_b64 p = Finite p1" "\<bar>p1 - p\<bar> \<le> p / 2 ^ 53" "0 \<le> p1"
    by blast
  have "p / 2 ^ 53 \<le> (2 ^ 51 + 1 / 4) / 2 ^ 53" using p_hi by (simp add: divide_right_mono)
  also have "\<dots> \<le> 1 / 2" by simp
  finally have "\<bar>p1 - p\<bar> \<le> 1 / 2" using p1(2) by linarith
  with pF have close: "\<bar>p1 - F\<bar> \<le> 3 / 4" by linarith
  have ttf: "time_to_frame (Finite q1) (Finite r) = Inr \<lfloor>p1\<rfloor>"
    using p1(1,3) by (simp add: time_to_frame_def float_mul_def py_int_def p_def)
  have "F - 1 \<le> p1" "p1 < F + 1" using close by linarith+
  then have b1: "of_int (f - 1) \<le> p1" and b2: "p1 < of_int (f + 1)"
    by (simp_all add: F_def)
  from b1 have g1: "f - 1 \<le> \<lfloor>p1\<rfloor>" by (simp only: le_floor_iff)
  from b2 have g2: "\<lfloor>p1\<rfloor> < f + 1" by (simp only: floor_less_iff)
  from g1 g2 have "\<lfloor>p1\<rfloor> = f \<or> \<lfloor>p1\<rfloor> = f - 1" by linarith
  with ftt ttf show ?thesis by blast
qed

theorem frame_time_round_trip_witness:
  "round_b64 (2997 / 100) = Finite (1054475631502295 / 35184372088832)
   \<and> (\<exists>t. frame_to_time 1000 (Finite (1054475631502295 / 35184372088832)) = Inr t
          \<and> time_to_frame t (Finite (1054475631502295 / 35184372088832)) = Inr 1000)"
proof -
  have lit: "round_b64 (2997 / 100) = Finite (1054475631502295 / 35184372088832)"
    by code_simp
  have "\<exists>t g. frame_to_time 1000 (Finite (1054475631502295 / 35184372088832)) = Inr t
      \<and> time_to_frame t (Finite (1054475631502295 / 35184372088832)) = Inr g
      \<and> (g = 1000 \<or> g = 1000 - 1)"
    by (rule frame_time_round_trip) simp_all
  then obtain t g where
    t: "frame_to_time 1000 (Finite (1054475631502295 / 35184372088832)) = Inr t" and
    g: "time_to_frame t (Finite (1054475631502295 / 35184372088832)) = Inr g"
    by blast
  have "frame_to_time 1000 (Finite (1054475631502295 / 35184372088832))
          = Inr (Finite (4695945557401669 / 140737488355328))"
    by code_simp
  with t have "t = Finite (4695945557401669 / 140737488355328)"
    by simp
  moreover have "time_to_frame (Finite (4695945557401669 / 140737488355328))
          (Finite (1054475631502295 / 35184372088832)) = Inr 1000"
    by code_simp
  ultimately have "g = 1000" using g by simp
  with lit t g show ?thesis by blast
qed

text \<open>
  C6 as stated fails: at 49 frames per second the time of frame 1 is the float nearest
  to \<open>1/49\<close>, its product with 49 rounds to the float just below 1, and the frame
  index that comes back is 0.
\<close>

theorem frame_time_round_trip_drifts:
  "frame_to_time 1 (Finite 49) = Inr (Finite (5882252574524729 / 288230376151711744))
   \<and> time_to_frame (Finite (5882252574524729 / 288230376151711744)) (Finite 49) = Inr 0"
  by code_simp

section \<open>The frame rate is not validated\<close>

text \<open>
  C8, as amended. Neither function checks the frame rate. For a finite time and a
  finite frame rate of any sign whose product is below \<open>2^1023\<close> in absolute value,
  \<open>time_to_frame\<close> raises nothing and returns the rounded product truncated towards
  zero, which is its floor when the product is not negative. For a frame index below
  \<open>2^53\<close> in absolute value, \<open>frame_to_time\<close> raises \<open>ZeroDivisionError\<close> exactly
  when the frame rate is zero, and otherwise returns the rounded quotient.
\<close>

theorem time_mapping_no_validation:
  assumes "\<bar>t * r\<bar> < 2 ^ 1023" "\<bar>f\<bar> < 2 ^ 53"
  shows "(\<exists>p. round_b64 (t * r) = Finite p
            \<and> time_to_frame (Finite t) (Finite r) = Inr (if 0 \<le> p then \<lfloor>p\<rfloor> else \<lceil>p\<rceil>)
            \<and> (0 \<le> t * r \<longrightarrow> 0 \<le> p))
       \<and> frame_to_time f (Finite r)
           = (if r = 0 then Inl ZeroDivisionError else Inr (round_b64 (of_int f / r)))"
proof -
  define p where "p = (if t * r = 0 then 0 else nearest_b64 (t * r))"
  have fin: "round_b64 (t * r) = Finite p"
    unfolding p_def by (rule round_b64_finite[OF assms(1)])
  have sign: "0 \<le> t * r \<longrightarrow> 0 \<le> p"
  proof (cases "t * r = 0")
    case True
    then show ?thesis by (simp only: p_def if_True) simp
  next
    case False
    show ?thesis
    proof
      assume "0 \<le> t * r"
      with False have "0 < t * r" by linarith
      from rounded_nonneg[OF this] False show "0 \<le> p" by (simp only: p_def if_False)
    qed
  qed
  have ttf: "time_to_frame (Finite t) (Finite r) = Inr (if 0 \<le> p then \<lfloor>p\<rfloor> else \<lceil>p\<rceil>)"
    using fin by (simp add: time_to_frame_def float_mul_def py_int_def)
  have "frame_to_time f (Finite r)
           = (if r = 0 then Inl ZeroDivisionError else Inr (round_b64 (of_int f / r)))"
    using float_of_int_exact[OF assms(2)] by (simp add: frame_to_time_def float_truediv_def)
  with fin ttf sign show ?thesis by blast
qed

theorem time_mapping_no_validation_witness:
  "time_to_frame (Finite (5 / 2)) (Finite 30) = Inr 75
   \<and> frame_to_time 75 (Finite 30) = Inr (Finite (5 / 2))
   \<and> frame_to_time 75 (Finite 0) = Inl ZeroDivisionError"
proof -
  have a: "round_b64 (5 / 2 * 30) = Finite 75" and b: "round_b64 (of_int 75 / 30) = Finite (5 / 2)"
    by code_simp+
  have h1: "\<bar>5 / 2 * 30 :: rat\<bar> < 2 ^ 1023" and h0: "\<bar>5 / 2 * 0 :: rat\<bar> < 2 ^ 1023"
    and h2: "\<bar>75 :: int\<bar> < 2 ^ 53"
    by simp_all
  from time_mapping_no_validation[OF h1 h2] a b
  have "time_to_frame (Finite (5 / 2)) (Finite 30) = Inr 75
      \<and> frame_to_time 75 (Finite 30) = Inr (Finite (5 / 2))"
    by auto
  moreover from time_mapping_no_validation[OF h0 h2]
  have "frame_to_time 75 (Finite 0) = Inl ZeroDivisionError"
    by simp
  ultimately show ?thesis by simp
qed

text \<open>
  C8 as stated fails: with the frame rate \<open>- 30\<close> both functions return a value, and
  with the frame rate 0 \<open>time_to_frame\<close> returns 0.
\<close>

theorem time_mapping_nonpositive_rate:
  "time_to_frame (Finite (5 / 2)) (Finite (- 30)) = Inr (- 75)
   \<and> frame_to_time 75 (Finite (- 30)) = Inr (Finite (- 5 / 2))
   \<and> time_to_frame (Finite (5 / 2)) (Finite 0) = Inr 0"
  by code_simp

end
